theory Spec2Isabelle
  imports Complex_Main "HOL-Library.Word" "HOL-Library.AList"
    "HOL-Library.Char_ord" "HOL-Library.List_Lexorder" "HOL-Library.Product_Lexorder"
begin

section \<open>Python values used by both tools\<close>

text \<open>
  Python strings are \<open>string\<close> (character lists), byte strings are lists of
  8-bit words, unbounded integers are \<open>int\<close>, \<open>None\<close> is \<open>None\<close> of an option
  type, and a raised exception is the \<open>Inl\<close> of a sum. The definitions come
  first, with only the lemmas their termination proofs rest on; the properties
  follow.
\<close>

type_synonym byte = "8 word"

type_synonym bytes = "byte list"

datatype exn =
    UploadException string
  | WorkerCrashed
  | AssertionError string
  | IntegrityError string
  | AttributeError string
  | ValueError string
  | BinasciiError
  | PlainException string
  | SoftError string
  | TypeError string
  | BotoError
  | NameError string
  | SystemExit int

text \<open>\<open>str(n)\<close> for an integer: decimal digits, with a minus sign below zero.\<close>

fun str_nat :: "nat \<Rightarrow> string" where
  "str_nat n =
     (if n < 10 then [''0123456789'' ! n]
      else str_nat (n div 10) @ [''0123456789'' ! (n mod 10)])"

declare str_nat.simps [simp del]

definition str_int :: "int \<Rightarrow> string" where
  "str_int i = (if i < 0 then ''-'' @ str_nat (nat (- i)) else str_nat (nat i))"

text \<open>The apostrophe, the double quote and the line feed; \<open>quoted s\<close> is \<open>s\<close>
  between apostrophes, as the format strings of the source write it.\<close>

definition apostrophe :: char where
  "apostrophe = CHR 0x27"


definition newline :: char where
  "newline = CHR 0x0A"

definition quoted :: "string \<Rightarrow> string" where
  "quoted s = [apostrophe] @ s @ [apostrophe]"

text \<open>\<open>sep.join(xs)\<close>.\<close>

fun join :: "string \<Rightarrow> string list \<Rightarrow> string" where
  "join sep [] = []"
| "join sep [x] = x"
| "join sep (x # y # ys) = x @ sep @ join sep (y # ys)"


section \<open>pput: metadata arguments\<close>




section \<open>snap: remote snapshots\<close>

text \<open>
  \<open>S3Snapshot\<close>: a name, the object's user metadata and its content length.
  \<open>is_full\<close> accepts both spellings of the key.
\<close>

record S3Snapshot =
  s3_name :: string
  s3_metadata :: "string \<rightharpoonup> string"
  s3_size :: nat

definition is_full :: "S3Snapshot \<Rightarrow> bool" where
  "is_full s = (Some ''true'' \<in> set [s3_metadata s ''is_full'', s3_metadata s ''isfull''])"



section \<open>snap: the upload command of the pair manager\<close>

text \<open>
  \<open>PairManager._pput_cmd\<close>. \<open>pput_meta\<close> is the local list \<open>meta\<close> the method
  builds; \<open>pput_cmd\<close> is the command line it returns. The first argument is the
  manager's \<open>compressor\<close> attribute.
\<close>

definition pput_meta :: "string option \<Rightarrow> int \<Rightarrow> string option \<Rightarrow> string list" where
  "pput_meta compressor estimated parent =
     [''size='' @ str_int estimated]
     @ (case parent of None \<Rightarrow> [''isfull=true''] | Some p \<Rightarrow> [''parent='' @ p])
     @ (case compressor of None \<Rightarrow> [] | Some c \<Rightarrow> [''compressor='' @ c])"

definition pput_cmd :: "string option \<Rightarrow> int \<Rightarrow> string \<Rightarrow> string \<Rightarrow> string option \<Rightarrow> string" where
  "pput_cmd compressor estimated s3_prefix snap_name parent =
     ''pput --quiet --estimated '' @ str_int estimated @ '' ''
     @ join '' '' (map (\<lambda>m. ''--meta '' @ m) (pput_meta compressor estimated parent))
     @ '' '' @ s3_prefix @ snap_name"

section \<open>pput: the chunk reader\<close>

text \<open>
  \<open>StreamHandler\<close>. The input stream is the list of the byte strings the source
  still has to deliver: a \<open>read(n)\<close> with positive \<open>n\<close> returns at most \<open>n\<close> bytes
  of the next non-empty one (a short read), \<open>read(0)\<close> returns nothing, a negative
  \<open>n\<close> reads to the end, and an empty result for a positive \<open>n\<close> means end of stream.
\<close>

record StreamHandler =
  input_stream :: "bytes list"
  chunk_size :: int
  partial_chunk :: bytes
  eof_reached :: bool

fun stream_read :: "int \<Rightarrow> bytes list \<Rightarrow> bytes \<times> bytes list" where
  "stream_read n [] = ([], [])"
| "stream_read n (seg # segs) =
     (if n < 0 then (concat (seg # segs), [])
      else if seg = [] then stream_read n segs
      else (take (nat n) seg,
            if drop (nat n) seg = [] then segs else drop (nat n) seg # segs))"

definition new_StreamHandler :: "bytes list \<Rightarrow> int \<Rightarrow> StreamHandler" where
  "new_StreamHandler stream csize =
     \<lparr>input_stream = stream, chunk_size = csize, partial_chunk = [], eof_reached = False\<rparr>"

definition finished :: "StreamHandler \<Rightarrow> bool" where
  "finished sh = (eof_reached sh \<and> length (partial_chunk sh) = 0)"

definition read_more :: "StreamHandler \<Rightarrow> StreamHandler" where
  "read_more sh =
     (let (rd, rest) = stream_read (chunk_size sh - int (length (partial_chunk sh))) (input_stream sh)
      in sh\<lparr>input_stream := rest,
            eof_reached := (if length rd = 0 then True else eof_reached sh),
            partial_chunk := partial_chunk sh @ rd\<rparr>)"

lemma stream_read_concat: "stream_read n segs = (rd, rest) \<Longrightarrow> concat segs = rd @ concat rest"
  by (induction n segs rule: stream_read.induct) (auto split: if_splits)

lemma read_more_concat:
  "partial_chunk sh @ concat (input_stream sh)
     = partial_chunk (read_more sh) @ concat (input_stream (read_more sh))"
  by (cases "stream_read (chunk_size sh - int (length (partial_chunk sh))) (input_stream sh)")
     (auto simp: read_more_def dest: stream_read_concat)

lemma read_more_less:
  "\<not> eof_reached (read_more sh) \<Longrightarrow>
     length (concat (input_stream (read_more sh))) < length (concat (input_stream sh))"
  by (cases "stream_read (chunk_size sh - int (length (partial_chunk sh))) (input_stream sh)")
     (auto simp: read_more_def dest!: stream_read_concat split: if_splits)

function get_chunk :: "StreamHandler \<Rightarrow> bytes option \<times> StreamHandler" where
  "get_chunk sh =
     (if eof_reached sh then (None, sh)
      else let sh' = read_more sh in
        if int (length (partial_chunk sh')) = chunk_size sh' \<or> eof_reached sh'
        then (Some (partial_chunk sh'), sh'\<lparr>partial_chunk := []\<rparr>)
        else get_chunk sh')"
  by pat_completeness auto
termination
  by (relation "measure (\<lambda>sh. length (concat (input_stream sh)))") (auto simp: read_more_less)

declare get_chunk.simps [simp del]

lemma get_chunk_eof: "eof_reached sh \<Longrightarrow> get_chunk sh = (None, sh)"
  by (simp add: get_chunk.simps)

lemma get_chunk_consumes:
  "get_chunk sh = (r, sh') \<Longrightarrow> \<not> eof_reached sh \<Longrightarrow>
     (if eof_reached sh'
      then length (concat (input_stream sh')) \<le> length (concat (input_stream sh))
      else length (concat (input_stream sh')) < length (concat (input_stream sh)))"
proof (induction sh rule: get_chunk.induct)
  case (1 sh)
  let ?s = "read_more sh"
  have le: "length (concat (input_stream ?s)) \<le> length (concat (input_stream sh))"
    using read_more_concat [of sh]
    by (cases "stream_read (chunk_size sh - int (length (partial_chunk sh))) (input_stream sh)")
       (auto simp: read_more_def dest!: stream_read_concat)
  show ?case
  proof (cases "int (length (partial_chunk ?s)) = chunk_size ?s \<or> eof_reached ?s")
    case True
    with "1.prems" have "sh' = ?s\<lparr>partial_chunk := []\<rparr>"
      by (subst (asm) get_chunk.simps) (auto simp: Let_def)
    with le read_more_less [of sh] show ?thesis by auto
  next
    case False
    with "1.prems" have g: "get_chunk ?s = (r, sh')"
      by (subst (asm) get_chunk.simps) (auto simp: Let_def)
    from False have ne: "\<not> eof_reached ?s" by simp
    from "1.IH" [OF "1.prems"(2) refl False g ne] read_more_less [OF ne]
    show ?thesis by (auto split: if_splits)
  qed
qed

lemma get_chunk_decreases:
  assumes "get_chunk sh = (Some c, sh')"
  shows "length (concat (input_stream sh')) + (if eof_reached sh' then 0 else 1)
         < length (concat (input_stream sh)) + (if eof_reached sh then 0 else 1)"
proof -
  have ne: "\<not> eof_reached sh"
    using assms get_chunk_eof [of sh] by auto
  from get_chunk_consumes [OF assms ne] ne show ?thesis
    by (auto split: if_splits)
qed

function read_all :: "StreamHandler \<Rightarrow> bytes list \<times> StreamHandler" where
  "read_all sh =
     (case get_chunk sh of
        (None, sh') \<Rightarrow> ([], sh')
      | (Some c, sh') \<Rightarrow> (case read_all sh' of (cs, sh'') \<Rightarrow> (c # cs, sh'')))"
  by pat_completeness auto
termination
  apply (relation "measure (\<lambda>sh. length (concat (input_stream sh)) + (if eof_reached sh then 0 else 1))")
   apply simp
  subgoal for sh x y c
    using get_chunk_decreases [of sh c y] by simp
  done

declare read_all.simps [simp del]

definition emitted :: "StreamHandler \<Rightarrow> bytes list" where
  "emitted sh = fst (read_all sh)"

section \<open>snap: lineage health\<close>

text \<open>
  The remote catalog is the manager's \<open>_snapshots\<close> dictionary: for every name
  the metadata and the content length of its object; \<open>get\<close> returns the snapshot
  stored under a name, whose \<open>name\<close> is that key. \<open>_is_healthy\<close> writes the
  \<open>_reason_broken\<close> attribute of the snapshots it walks: the attributes are the
  store, from names to reasons, that the function takes and returns. Snapshots
  have no equality of their own, so membership in \<open>visited\<close> is identity, which
  for the snapshots of one catalog is equality of names.
\<close>

datatype reason = CYCLE | MISSING_PARENT | PARENT_BROKEN

type_synonym s3_catalog = "(string \<times> (string \<rightharpoonup> string) \<times> nat) list"

definition s3_get :: "s3_catalog \<Rightarrow> string option \<Rightarrow> S3Snapshot option" where
  "s3_get cat key =
     (case key of
        None \<Rightarrow> None
      | Some n \<Rightarrow>
          (case map_of cat n of
             None \<Rightarrow> None
           | Some (md, sz) \<Rightarrow> Some \<lparr>s3_name = n, s3_metadata = md, s3_size = sz\<rparr>))"

definition s3_parent :: "s3_catalog \<Rightarrow> S3Snapshot \<Rightarrow> S3Snapshot option" where
  "s3_parent cat s = s3_get cat (s3_metadata s ''parent'')"

definition unvisited :: "s3_catalog \<Rightarrow> string set \<Rightarrow> S3Snapshot \<Rightarrow> nat" where
  "unvisited cat visited s =
     card (fst ` set cat - visited) + (if s3_name s \<in> fst ` set cat then 0 else 1)"

lemma s3_get_name: "s3_get cat key = Some p \<Longrightarrow> key = Some (s3_name p) \<and> s3_name p \<in> fst ` set cat"
  by (auto simp: s3_get_def split: option.splits dest!: map_of_SomeD intro: rev_image_eqI)

lemma parent_in_catalog: "s3_parent cat s = Some p \<Longrightarrow> s3_name p \<in> fst ` set cat"
  unfolding s3_parent_def by (drule s3_get_name) simp

lemma unvisited_parent:
  assumes "s3_name s \<notin> visited" "s3_parent cat s = Some p"
  shows "unvisited cat (insert (s3_name s) visited) p < unvisited cat visited s"
proof -
  have p: "s3_name p \<in> fst ` set cat" using assms(2) by (rule parent_in_catalog)
  have fin: "finite (fst ` set cat - visited)" by simp
  show ?thesis
  proof (cases "s3_name s \<in> fst ` set cat")
    case True
    then have m: "s3_name s \<in> fst ` set cat - visited" using assms(1) by simp
    have "fst ` set cat - insert (s3_name s) visited = (fst ` set cat - visited) - {s3_name s}"
      by auto
    then have "card (fst ` set cat - insert (s3_name s) visited) < card (fst ` set cat - visited)"
      using card_Diff1_less [OF fin m] by simp
    with p True show ?thesis by (simp add: unvisited_def)
  next
    case False
    then have "fst ` set cat - insert (s3_name s) visited = fst ` set cat - visited" by auto
    with p False show ?thesis by (simp add: unvisited_def)
  qed
qed

function is_healthy_rec ::
  "s3_catalog \<Rightarrow> string set \<Rightarrow> S3Snapshot \<Rightarrow> (string \<rightharpoonup> reason) \<Rightarrow> bool \<times> (string \<rightharpoonup> reason)" where
  "is_healthy_rec cat visited s st =
     (if is_full s then (True, st)
      else if s3_name s \<in> visited then (False, st(s3_name s \<mapsto> CYCLE))
      else (case s3_parent cat s of
              None \<Rightarrow> (False, st(s3_name s \<mapsto> MISSING_PARENT))
            | Some p \<Rightarrow>
                (case is_healthy_rec cat (insert (s3_name s) visited) p st of
                   (True, st') \<Rightarrow> (True, st')
                 | (False, st') \<Rightarrow>
                     (if st' (s3_name p) = Some CYCLE
                      then (False, st'(s3_name s \<mapsto> CYCLE))
                      else (False, st'(s3_name s \<mapsto> PARENT_BROKEN))))))"
  by pat_completeness auto
termination
  apply (relation "measure (\<lambda>(cat, visited, s, st). unvisited cat visited s)")
   apply simp
  apply (simp add: unvisited_parent)
  done

declare is_healthy_rec.simps [simp del]

text \<open>
  The classification as a value, for the proofs: the same walk, returning the
  reason it would write for the snapshot it is called on.
\<close>

function health :: "s3_catalog \<Rightarrow> string set \<Rightarrow> S3Snapshot \<Rightarrow> reason option" where
  "health cat visited s =
     (if is_full s then None
      else if s3_name s \<in> visited then Some CYCLE
      else (case s3_parent cat s of
              None \<Rightarrow> Some MISSING_PARENT
            | Some p \<Rightarrow>
                (case health cat (insert (s3_name s) visited) p of
                   None \<Rightarrow> None
                 | Some r \<Rightarrow> if r = CYCLE then Some CYCLE else Some PARENT_BROKEN)))"
  by pat_completeness auto
termination
  apply (relation "measure (\<lambda>(cat, visited, s). unvisited cat visited s)")
   apply simp
  apply (simp add: unvisited_parent)
  done

declare health.simps [simp del]

lemma is_healthy_rec_health:
  "is_healthy_rec cat visited s st = (h, st') \<Longrightarrow>
     h = (health cat visited s = None) \<and> (\<not> h \<longrightarrow> st' (s3_name s) = health cat visited s)
     \<and> (h \<longrightarrow> st' = st)"
proof (induction cat visited s st arbitrary: h st' rule: is_healthy_rec.induct)
  case (1 cat visited s st)
  show ?case
  proof (cases "is_full s \<or> s3_name s \<in> visited \<or> s3_parent cat s = None")
    case True
    with "1.prems" show ?thesis
      by (subst (asm) is_healthy_rec.simps, subst health.simps, subst health.simps)
         (auto split: if_splits)
  next
    case False
    then obtain p where p: "s3_parent cat s = Some p" by auto
    obtain hp stp where r: "is_healthy_rec cat (insert (s3_name s) visited) p st = (hp, stp)"
      by (cases "is_healthy_rec cat (insert (s3_name s) visited) p st")
    from False p have nf: "\<not> is_full s" and nv: "s3_name s \<notin> visited" by auto
    note ih = "1.IH" [OF nf nv p r]
    have hs: "health cat visited s =
        (case health cat (insert (s3_name s) visited) p of
                   None \<Rightarrow> None
                 | Some r \<Rightarrow> if r = CYCLE then Some CYCLE else Some PARENT_BROKEN)"
      by (subst health.simps) (simp add: nf nv p)
    have rs: "(h, st') =
        (if hp then (True, stp)
         else if stp (s3_name p) = Some CYCLE
              then (False, stp(s3_name s \<mapsto> CYCLE))
              else (False, stp(s3_name s \<mapsto> PARENT_BROKEN)))"
      using "1.prems" by (subst (asm) is_healthy_rec.simps) (auto simp add: nf nv p r split: bool.splits if_splits)
    show ?thesis
    proof (cases hp)
      case True
      with ih rs hs show ?thesis by simp
    next
      case False
      with ih obtain rp where rp: "health cat (insert (s3_name s) visited) p = Some rp"
        and sp: "stp (s3_name p) = Some rp" by auto
      with False rs hs show ?thesis by (cases rp) auto
    qed
  qed
qed

text \<open>
  The properties \<open>is_healthy\<close> and \<open>reason_broken\<close>, at their first evaluation in a
  process (no reason written yet, nothing visited).
\<close>

definition is_healthy :: "s3_catalog \<Rightarrow> S3Snapshot \<Rightarrow> bool" where
  "is_healthy cat s = fst (is_healthy_rec cat {} s Map.empty)"

definition reason_broken :: "s3_catalog \<Rightarrow> S3Snapshot \<Rightarrow> reason option" where
  "reason_broken cat s =
     (case is_healthy_rec cat {} s Map.empty of
        (True, st) \<Rightarrow> None
      | (False, st) \<Rightarrow> st (s3_name s))"

lemma is_healthy_health: "is_healthy cat s = (health cat {} s = None)"
  using is_healthy_rec_health [of cat "{}" s Map.empty]
  by (cases "is_healthy_rec cat {} s Map.empty") (auto simp: is_healthy_def)

definition step :: "s3_catalog \<Rightarrow> (S3Snapshot \<times> S3Snapshot) set" where
  "step cat = {(a, b). \<not> is_full a \<and> s3_parent cat a = Some b}"

definition in_catalog :: "s3_catalog \<Rightarrow> S3Snapshot \<Rightarrow> bool" where
  "in_catalog cat s = (s3_get cat (Some (s3_name s)) = Some s)"

fun ancestor :: "s3_catalog \<Rightarrow> nat \<Rightarrow> S3Snapshot \<Rightarrow> S3Snapshot option" where
  "ancestor cat 0 s = Some s"
| "ancestor cat (Suc n) s =
     (if is_full s then None
      else (case s3_parent cat s of None \<Rightarrow> None | Some p \<Rightarrow> ancestor cat n p))"

text \<open>
  The reasons are attributes of shared objects: a later walk that passes a
  snapshot overwrites the reason an earlier one left. \<open>on_path\<close> says that
  the visited names are those of snapshots the walk came through on its way to
  \<open>s\<close>; a store is \<open>consistent\<close> when every reason it holds is the one the
  snapshot gets when classified on its own.
\<close>

definition on_path :: "s3_catalog \<Rightarrow> string set \<Rightarrow> S3Snapshot \<Rightarrow> bool" where
  "on_path cat visited s =
     (\<forall>v \<in> visited. \<exists>y. in_catalog cat y \<and> s3_name y = v \<and> (y, s) \<in> (step cat)\<^sup>+)"

definition consistent :: "s3_catalog \<Rightarrow> (string \<rightharpoonup> reason) \<Rightarrow> bool" where
  "consistent cat st =
     (\<forall>s r. in_catalog cat s \<and> st (s3_name s) = Some r \<longrightarrow> health cat {} s = Some r)"

definition demo_catalog :: s3_catalog where
  "demo_catalog =
     [(''D@a'', [''isfull'' \<mapsto> ''true''], 10),
      (''D@b'', [''parent'' \<mapsto> ''D@a''], 11),
      (''D@c'', [''parent'' \<mapsto> ''D@x''], 12),
      (''D@d'', [''parent'' \<mapsto> ''D@c''], 13),
      (''D@e'', [''parent'' \<mapsto> ''D@f''], 14),
      (''D@f'', [''parent'' \<mapsto> ''D@e''], 15),
      (''D@g'', [''parent'' \<mapsto> ''D@e''], 16)]"

definition demo_snap :: "string \<Rightarrow> string \<Rightarrow> nat \<Rightarrow> S3Snapshot" where
  "demo_snap n p sz = \<lparr>s3_name = n, s3_metadata = [''parent'' \<mapsto> p], s3_size = sz\<rparr>"

section \<open>snap: local snapshots and the pair manager\<close>

text \<open>
  A local snapshot holds its name and a reference to its parent, the snapshot
  listed just before it. The ordered dictionary of the local manager is an
  association list kept by \<open>AList.update\<close>. The command executor is handed to the
  pair manager: its two functions stand for the dry-run send followed by
  \<open>_parse_estimated_size\<close>, and for the outcome of a pipeline. What the manager
  asks of it is recorded, in order, as the list of issued commands.
\<close>

definition startswith :: "string \<Rightarrow> string \<Rightarrow> bool" where
  "startswith s p = (take (length p) s = p)"

datatype ZFSSnapshot = ZFSSnapshot (z_name: string) (z_parent: "ZFSSnapshot option")

type_synonym zfs_snapshots = "(string \<times> ZFSSnapshot) list"

fun build_snapshots_from ::
  "string \<Rightarrow> string \<Rightarrow> string list \<Rightarrow> zfs_snapshots \<Rightarrow> ZFSSnapshot option \<Rightarrow> zfs_snapshots" where
  "build_snapshots_from fs_name snapshot_prefix [] snapshots prev = snapshots"
| "build_snapshots_from fs_name snapshot_prefix (snap_name # rest) snapshots prev =
     (if \<not> startswith snap_name snapshot_prefix
      then build_snapshots_from fs_name snapshot_prefix rest snapshots prev
      else let full_name = fs_name @ ''@'' @ snap_name;
               zfs_snap = ZFSSnapshot full_name prev
           in build_snapshots_from fs_name snapshot_prefix rest
                (AList.update full_name zfs_snap snapshots) (Some zfs_snap))"

definition build_snapshots :: "string \<Rightarrow> string \<Rightarrow> string list \<Rightarrow> zfs_snapshots" where
  "build_snapshots fs_name snapshot_prefix fs_snaps =
     build_snapshots_from fs_name snapshot_prefix fs_snaps [] None"

definition zfs_get :: "zfs_snapshots \<Rightarrow> string \<Rightarrow> ZFSSnapshot option" where
  "zfs_get snapshots name = map_of snapshots name"

definition get_latest :: "zfs_snapshots \<Rightarrow> string \<Rightarrow> exn + ZFSSnapshot" where
  "get_latest snapshots nothing_msg =
     (if length snapshots = 0 then Inl (SoftError nothing_msg) else Inr (snd (last snapshots)))"

record pipe_call =
  pc_cmd1 :: string
  pc_cmd2 :: string
  pc_dry_run :: bool
  pc_estimated_size :: int

datatype command = Shell string | Pipe pipe_call

record executor =
  dry_send_size :: "string \<Rightarrow> exn + int"
  pipe_result :: "pipe_call \<Rightarrow> exn option"

text \<open>
  \<open>CommandExecutor.pipe\<close>, the executor a pair manager is given by default: the
  text it hands to the shell for one pipeline, where \<open>has_pv\<close> tells whether
  \<open>pv\<close> is installed. The pair manager always passes an estimated size.
\<close>

definition pipe :: "bool \<Rightarrow> bool \<Rightarrow> pipe_call \<Rightarrow> string" where
  "pipe has_pv quiet pc =
     (if has_pv \<and> \<not> quiet
      then (let pv = ''pv --size '' @ str_int (pc_estimated_size pc)
            in pc_cmd1 pc @ '' | '' @ pv @ ''| '' @ pc_cmd2 pc)
      else ''{cmd1} | {cmd2}'')"

record PairManager =
  pm_catalog :: s3_catalog
  pm_s3_prefix :: string
  pm_zfs :: zfs_snapshots
  pm_nothing_msg :: string
  pm_cmd :: executor
  pm_compressor :: "string option"

definition COMPRESSORS :: "string \<rightharpoonup> string \<times> string" where
  "COMPRESSORS =
     [''pigz1'' \<mapsto> (''pigz -1 --blocksize 4096'', ''pigz -d''),
      ''pigz4'' \<mapsto> (''pigz -4 --blocksize 4096'', ''pigz -d'')]"

definition COMPRESSORS_get :: "string option \<Rightarrow> (string \<times> string) option" where
  "COMPRESSORS_get label = (case label of None \<Rightarrow> None | Some l \<Rightarrow> COMPRESSORS l)"

definition snapshot_to_backup :: "PairManager \<Rightarrow> string option \<Rightarrow> exn + ZFSSnapshot" where
  "snapshot_to_backup pm snap_name =
     (case snap_name of
        None \<Rightarrow> get_latest (pm_zfs pm) (pm_nothing_msg pm)
      | Some n \<Rightarrow>
          (case zfs_get (pm_zfs pm) n of
             None \<Rightarrow> Inl (PlainException (''Failed to get the snapshot '' @ n))
           | Some z \<Rightarrow> Inr z))"

definition compress :: "PairManager \<Rightarrow> string \<Rightarrow> string" where
  "compress pm cmd =
     (case COMPRESSORS_get (pm_compressor pm) of
        None \<Rightarrow> cmd
      | Some (compress_cmd, decompress_cmd) \<Rightarrow> compress_cmd @ '' | '' @ cmd)"


definition broken_literal :: string where
  "broken_literal =
     ''Broken snapshot detected {s3_snap.name}, reason: '' @ quoted ''{s3_snap.reason_broken}''"

definition none_has_no_name :: string where
  "none_has_no_name = quoted ''NoneType'' @ '' object has no attribute '' @ quoted ''name''"

fun backup_walk :: "s3_catalog \<Rightarrow> ZFSSnapshot \<Rightarrow> ZFSSnapshot list \<Rightarrow> exn + ZFSSnapshot list" where
  "backup_walk cat (ZFSSnapshot n par) to_upload =
     (case s3_get cat (Some n) of
        Some s3_snap \<Rightarrow>
          if \<not> is_healthy cat s3_snap then Inl (IntegrityError broken_literal)
          else Inr to_upload
      | None \<Rightarrow>
          (case par of
             None \<Rightarrow> Inr (to_upload @ [ZFSSnapshot n par])
           | Some p \<Rightarrow> backup_walk cat p (to_upload @ [ZFSSnapshot n par])))"

definition incremental_pipe :: "PairManager \<Rightarrow> bool \<Rightarrow> string \<Rightarrow> string \<Rightarrow> int \<Rightarrow> pipe_call" where
  "incremental_pipe pm dry_run parent_nm nm estimated_size =
     \<lparr>pc_cmd1 = ''zfs send -i '' @ quoted parent_nm @ '' '' @ quoted nm,
      pc_cmd2 = compress pm (pput_cmd (pm_compressor pm) estimated_size (pm_s3_prefix pm) nm (Some parent_nm)),
      pc_dry_run = dry_run,
      pc_estimated_size = estimated_size\<rparr>"

fun upload_each ::
  "PairManager \<Rightarrow> bool \<Rightarrow> ZFSSnapshot list \<Rightarrow> command list \<Rightarrow> (string \<times> int) list
     \<Rightarrow> (exn + (string \<times> int) list) \<times> command list" where
  "upload_each pm dry_run [] issued uploaded_meta = (Inr uploaded_meta, issued)"
| "upload_each pm dry_run (z_snap # rest) issued uploaded_meta =
     (case z_parent z_snap of
        None \<Rightarrow> (Inl (AttributeError none_has_no_name), issued)
      | Some p \<Rightarrow>
          (let dry = ''zfs send -nvP -i '' @ quoted (z_name p) @ '' '' @ quoted (z_name z_snap)
           in case dry_send_size (pm_cmd pm) dry of
                Inl e \<Rightarrow> (Inl e, issued @ [Shell dry])
              | Inr estimated_size \<Rightarrow>
                  (let pc = incremental_pipe pm dry_run (z_name p) (z_name z_snap) estimated_size
                   in case pipe_result (pm_cmd pm) pc of
                        Some e \<Rightarrow> (Inl e, issued @ [Shell dry, Pipe pc])
                      | None \<Rightarrow>
                          upload_each pm dry_run rest (issued @ [Shell dry, Pipe pc])
                            (uploaded_meta @ [(z_name z_snap, estimated_size)]))))"

definition backup_incremental ::
  "PairManager \<Rightarrow> string option \<Rightarrow> bool \<Rightarrow> (exn + (string \<times> int) list) \<times> command list" where
  "backup_incremental pm snap_name dry_run =
     (case snapshot_to_backup pm snap_name of
        Inl e \<Rightarrow> (Inl e, [])
      | Inr z_snap \<Rightarrow>
          (case backup_walk (pm_catalog pm) z_snap [] of
             Inl e \<Rightarrow> (Inl e, [])
           | Inr to_upload \<Rightarrow> upload_each pm dry_run (rev to_upload) [] []))"

definition backup_full ::
  "PairManager \<Rightarrow> string option \<Rightarrow> bool \<Rightarrow> (exn + (string \<times> int) list) \<times> command list" where
  "backup_full pm snap_name dry_run =
     (case snapshot_to_backup pm snap_name of
        Inl e \<Rightarrow> (Inl e, [])
      | Inr z_snap \<Rightarrow>
          (let dry = ''zfs send -nvP '' @ z_name z_snap
           in case dry_send_size (pm_cmd pm) dry of
                Inl e \<Rightarrow> (Inl e, [Shell dry])
              | Inr estimated_size \<Rightarrow>
                  (let pc = \<lparr>pc_cmd1 = ''zfs send '' @ quoted (z_name z_snap),
                             pc_cmd2 = compress pm (pput_cmd (pm_compressor pm) estimated_size
                                          (pm_s3_prefix pm) (z_name z_snap) None),
                             pc_dry_run = dry_run,
                             pc_estimated_size = estimated_size\<rparr>
                   in case pipe_result (pm_cmd pm) pc of
                        Some e \<Rightarrow> (Inl e, [Shell dry, Pipe pc])
                      | None \<Rightarrow> (Inr [(z_name z_snap, estimated_size)], [Shell dry, Pipe pc]))))"

text \<open>
  For the statements about \<open>backup_incremental\<close>: the chain of a local snapshot
  (itself, its parent, and so on to the root), the snapshots with no remote
  object of their name, and the commands and the recorded size of the upload of
  one snapshot that has a parent.
\<close>

fun lineage :: "ZFSSnapshot \<Rightarrow> ZFSSnapshot list" where
  "lineage (ZFSSnapshot n par) =
     ZFSSnapshot n par # (case par of None \<Rightarrow> [] | Some p \<Rightarrow> lineage p)"

definition missing_remotely :: "s3_catalog \<Rightarrow> ZFSSnapshot \<Rightarrow> bool" where
  "missing_remotely cat z = (s3_get cat (Some (z_name z)) = None)"

definition upload_commands :: "PairManager \<Rightarrow> bool \<Rightarrow> ZFSSnapshot \<Rightarrow> command list" where
  "upload_commands pm dry_run z =
     (case z_parent z of
        None \<Rightarrow> []
      | Some p \<Rightarrow>
          (let dry = ''zfs send -nvP -i '' @ quoted (z_name p) @ '' '' @ quoted (z_name z)
           in case dry_send_size (pm_cmd pm) dry of
                Inl e \<Rightarrow> [Shell dry]
              | Inr n \<Rightarrow> [Shell dry, Pipe (incremental_pipe pm dry_run (z_name p) (z_name z) n)]))"

definition upload_size :: "PairManager \<Rightarrow> ZFSSnapshot \<Rightarrow> int" where
  "upload_size pm z =
     (case z_parent z of
        None \<Rightarrow> 0
      | Some p \<Rightarrow>
          (case dry_send_size (pm_cmd pm)
                  (''zfs send -nvP -i '' @ quoted (z_name p) @ '' '' @ quoted (z_name z)) of
             Inl e \<Rightarrow> 0
           | Inr n \<Rightarrow> n))"

definition root_only_pm :: PairManager where
  "root_only_pm =
     \<lparr>pm_catalog = [], pm_s3_prefix = ''zfs3backup/'',
      pm_zfs = build_snapshots ''D'' [] [''a'', ''b''],
      pm_nothing_msg = ''Nothing to backup'',
      pm_cmd = \<lparr>dry_send_size = (\<lambda>c. Inr 1000), pipe_result = (\<lambda>c. None)\<rparr>,
      pm_compressor = None\<rparr>"













section \<open>pput: the upload coordinator\<close>

text \<open>
  MD5 is a parameter \<open>md5\<close> of the model, from byte strings to byte strings; an
  incremental hash object is the bytes fed to it so far. Hex digests are lower
  case; \<open>a2b_hex\<close> accepts both cases and fails on an odd length or a character
  that is no hex digit.
\<close>

definition hexdigits :: string where
  "hexdigits = ''0123456789abcdef''"

definition hexlify :: "bytes \<Rightarrow> string" where
  "hexlify bs = concat (map (\<lambda>b. [hexdigits ! (unat b div 16), hexdigits ! (unat b mod 16)]) bs)"

fun position :: "'a \<Rightarrow> 'a list \<Rightarrow> nat option" where
  "position x [] = None"
| "position x (y # ys) = (if x = y then Some 0 else map_option Suc (position x ys))"

definition unhex_digit :: "char \<Rightarrow> nat option" where
  "unhex_digit c =
     (case position c hexdigits of
        Some n \<Rightarrow> Some n
      | None \<Rightarrow> position c ''0123456789ABCDEF'')"

fun a2b_hex :: "string \<Rightarrow> exn + bytes" where
  "a2b_hex [] = Inr []"
| "a2b_hex [c] = Inl BinasciiError"
| "a2b_hex (c # d # rest) =
     (case (unhex_digit c, unhex_digit d) of
        (Some h, Some l) \<Rightarrow>
          (case a2b_hex rest of
             Inl e \<Rightarrow> Inl e
           | Inr bs \<Rightarrow> Inr (of_nat (16 * h + l) # bs))
      | _ \<Rightarrow> Inl BinasciiError)"

fun multipart_etag_loop :: "string list \<Rightarrow> bytes \<Rightarrow> nat \<Rightarrow> exn + bytes \<times> nat" where
  "multipart_etag_loop [] etag count = Inr (etag, count)"
| "multipart_etag_loop (dig # digests) etag count =
     (case a2b_hex dig of
        Inl e \<Rightarrow> Inl e
      | Inr raw \<Rightarrow> multipart_etag_loop digests (etag @ raw) (count + 1))"

definition multipart_etag :: "(bytes \<Rightarrow> bytes) \<Rightarrow> string list \<Rightarrow> exn + string" where
  "multipart_etag md5 digests =
     (case multipart_etag_loop digests [] 0 of
        Inl e \<Rightarrow> Inl e
      | Inr (etag, count) \<Rightarrow>
          Inr ([apostrophe] @ hexlify (md5 etag) @ ''-'' @ str_nat count @ [apostrophe]))"

text \<open>
  A worker takes a job, uploads the part (retrying as the \<open>retry\<close> decorator does:
  up to \<open>max_retries\<close> attempts, the last failure raised) and puts a result in
  the result queue; an exception ends its thread. The store's answers to the
  attempts of one job are a function from the attempt number.
\<close>

datatype response = Response nat string | Raises

record Result =
  r_success :: bool
  r_traceback :: "exn option"
  r_index :: nat
  r_md5 :: string
  r_etag :: string

definition upload_part :: "(bytes \<Rightarrow> bytes) \<Rightarrow> bytes \<Rightarrow> response \<Rightarrow> exn + string \<times> string" where
  "upload_part md5 chunk resp =
     (case resp of
        Raises \<Rightarrow> Inl BotoError
      | Response status etag \<Rightarrow>
          if status \<noteq> 200 then Inl (UploadException ''ResponseMetadata'')
          else Inr (hexlify (md5 chunk), etag))"

fun retry_loop :: "nat \<Rightarrow> nat \<Rightarrow> (nat \<Rightarrow> exn + 'a) \<Rightarrow> exn + 'a option" where
  "retry_loop max_retries 0 func = Inr None"
| "retry_loop max_retries (Suc k) func =
     (let attempt = max_retries - k
      in case func attempt of
           Inr v \<Rightarrow> Inr (Some v)
         | Inl e \<Rightarrow> if attempt \<ge> max_retries then Inl e else retry_loop max_retries k func)"

definition retry :: "nat \<Rightarrow> (nat \<Rightarrow> exn + 'a) \<Rightarrow> exn + 'a option" where
  "retry max_retries func = retry_loop max_retries max_retries func"

definition worker_job ::
  "nat \<Rightarrow> (bytes \<Rightarrow> bytes) \<Rightarrow> (nat \<Rightarrow> response) \<Rightarrow> nat \<times> bytes \<Rightarrow> Result option" where
  "worker_job max_retries md5 responses job =
     (case retry max_retries (\<lambda>attempt. upload_part md5 (snd job) (responses attempt)) of
        Inr (Some (m, e)) \<Rightarrow>
          Some \<lparr>r_success = True, r_traceback = None, r_index = fst job, r_md5 = m, r_etag = e\<rparr>
      | _ \<Rightarrow> None)"

text \<open>
  The coordinator. \<open>multipart\<close> is \<open>None\<close> before the upload is initiated and
  afterwards holds the calls made on the multipart upload, in order. \<open>outbox\<close>
  holds the jobs put in the work queue and not yet finished by a worker, \<open>inbox\<close>
  the result queue, \<open>enqueued\<close> every job ever put in the work queue. The store
  accepts the initiate, complete and abort calls; a full work queue that would
  block \<open>put\<close> is not modelled.

  What the workers do between two polls of the coordinator is an event: the
  jobs of the work queue that are finished since the last poll, each with the
  store's answers. A schedule is the list of events of the successive turns of
  the main loop; when it ends while the loop would go on, the run has not
  finished and the outcome is \<open>None\<close>.
\<close>

datatype s3_call = Complete "(nat \<times> string) list" | Abort

record UploadSupervisor =
  stream_handler :: StreamHandler
  multipart :: "s3_call list option"
  results :: "(nat \<times> string \<times> string) list"
  pending_chunks :: int
  verbosity :: nat
  inbox :: "Result list"
  outbox :: "(nat \<times> bytes) list"
  enqueued :: "(nat \<times> bytes) list"
  workers :: nat
  dead_workers :: nat
  stderr :: "string list"

definition new_UploadSupervisor :: "StreamHandler \<Rightarrow> nat \<Rightarrow> UploadSupervisor" where
  "new_UploadSupervisor sh verb =
     \<lparr>stream_handler = sh, multipart = None, results = [], pending_chunks = 0,
      verbosity = verb, inbox = [], outbox = [], enqueued = [], workers = 0,
      dead_workers = 0, stderr = []\<rparr>"

type_synonym job_outcome = "nat \<times> (nat \<Rightarrow> response)"

fun workers_run ::
  "nat \<Rightarrow> (bytes \<Rightarrow> bytes) \<Rightarrow> job_outcome list \<Rightarrow> UploadSupervisor \<Rightarrow> UploadSupervisor" where
  "workers_run max_retries md5 [] spv = spv"
| "workers_run max_retries md5 ((idx, responses) # rest) spv =
     (case find (\<lambda>job. fst job = idx) (outbox spv) of
        None \<Rightarrow> workers_run max_retries md5 rest spv
      | Some job \<Rightarrow>
          if workers spv \<le> dead_workers spv then workers_run max_retries md5 rest spv
          else
            (let spv' = spv\<lparr>outbox := remove1 job (outbox spv)\<rparr>
             in case worker_job max_retries md5 responses job of
                  Some r \<Rightarrow> workers_run max_retries md5 rest (spv'\<lparr>inbox := inbox spv' @ [r]\<rparr>)
                | None \<Rightarrow>
                    workers_run max_retries md5 rest (spv'\<lparr>dead_workers := dead_workers spv' + 1\<rparr>)))"

definition start_workers :: "nat \<Rightarrow> UploadSupervisor \<Rightarrow> UploadSupervisor" where
  "start_workers concurrency spv =
     spv\<lparr>outbox := [], inbox := [], workers := concurrency, dead_workers := 0\<rparr>"

definition begin_upload :: "UploadSupervisor \<Rightarrow> exn + UploadSupervisor" where
  "begin_upload spv =
     (if multipart spv \<noteq> None then Inl (AssertionError ''multipart upload already started'')
      else Inr (spv\<lparr>multipart := Some []\<rparr>))"

definition multipart_call :: "s3_call \<Rightarrow> UploadSupervisor \<Rightarrow> UploadSupervisor" where
  "multipart_call c spv = spv\<lparr>multipart := map_option (\<lambda>calls. calls @ [c]) (multipart spv)\<rparr>"

definition zero_bytes_message :: string where
  "zero_bytes_message = ''Error: Can'' @ [apostrophe] @ ''t upload zero bytes!''"

definition finish_upload :: "UploadSupervisor \<Rightarrow> (exn + unit) \<times> UploadSupervisor" where
  "finish_upload spv =
     (if length (results spv) = 0
      then (Inl (UploadException zero_bytes_message), multipart_call Abort spv)
      else (let sorted_results = sort_key fst (map (\<lambda>r. (fst r, snd (snd r))) (results spv))
            in (Inr (), multipart_call (Complete sorted_results) spv)))"

definition handle_result :: "UploadSupervisor \<Rightarrow> (exn + unit) \<times> UploadSupervisor" where
  "handle_result spv =
     (case inbox spv of
        [] \<Rightarrow> (Inr (), spv)
      | result # rest \<Rightarrow>
          (let sup1 = spv\<lparr>inbox := rest\<rparr>
           in if r_success result
              then (Inr (),
                    (if verbosity sup1 \<ge> 2
                     then sup1\<lparr>stderr := stderr sup1
                            @ [[newline] @ ''uploaded chunk '' @ str_nat (r_index result) @ '' '' @ [newline]]\<rparr>
                     else sup1)
                    \<lparr>results := results sup1 @ [(r_index result, r_md5 result, r_etag result)],
                     pending_chunks := pending_chunks sup1 - 1\<rparr>)
              else (case r_traceback result of
                      Some e \<Rightarrow> (Inl e, sup1)
                    | None \<Rightarrow> (Inl (TypeError ''exceptions must derive from BaseException''), sup1))))"

function handle_results :: "UploadSupervisor \<Rightarrow> (exn + unit) \<times> UploadSupervisor" where
  "handle_results spv =
     (if inbox spv = [] then (Inr (), spv)
      else (case handle_result spv of
              (Inl e, spv') \<Rightarrow> (Inl e, spv')
            | (Inr u, spv') \<Rightarrow> handle_results spv'))"
  by pat_completeness auto
termination
  apply (relation "measure (\<lambda>spv. length (inbox spv))")
   apply simp
  apply (auto simp: handle_result_def Let_def split: list.splits if_splits option.splits)
  done

declare handle_results.simps [simp del]

definition send_chunk :: "nat \<Rightarrow> bytes \<Rightarrow> UploadSupervisor \<Rightarrow> UploadSupervisor" where
  "send_chunk index chunk spv =
     spv\<lparr>pending_chunks := pending_chunks spv + 1,
         outbox := outbox spv @ [(index, chunk)],
         enqueued := enqueued spv @ [(index, chunk)]\<rparr>"

definition check_workers :: "UploadSupervisor \<Rightarrow> exn + unit" where
  "check_workers spv = (if dead_workers spv > 0 then Inl WorkerCrashed else Inr ())"

definition truthy :: "bytes option \<Rightarrow> bool" where
  "truthy chunk = (case chunk of None \<Rightarrow> False | Some c \<Rightarrow> c \<noteq> [])"

fun main_loop_while ::
  "nat \<Rightarrow> (bytes \<Rightarrow> bytes) \<Rightarrow> job_outcome list list \<Rightarrow> UploadSupervisor \<Rightarrow> nat
     \<Rightarrow> (exn + nat) option \<times> UploadSupervisor" where
  "main_loop_while max_retries md5 [] spv chunk_index =
     (if pending_chunks spv \<noteq> 0 \<or> \<not> finished (stream_handler spv)
      then (None, spv)
      else (Some (Inr chunk_index), spv))"
| "main_loop_while max_retries md5 (ev # evs) spv chunk_index =
     (if pending_chunks spv \<noteq> 0 \<or> \<not> finished (stream_handler spv)
      then
        (let sup1 = workers_run max_retries md5 ev spv
         in case check_workers sup1 of
              Inl e \<Rightarrow> (Some (Inl e), sup1)
            | Inr u \<Rightarrow>
                (case handle_results sup1 of
                   (Inl e, sup2) \<Rightarrow> (Some (Inl e), sup2)
                 | (Inr u', sup2) \<Rightarrow>
                     (case get_chunk (stream_handler sup2) of
                        (chunk, sh') \<Rightarrow>
                          (let sup3 = sup2\<lparr>stream_handler := sh'\<rparr>
                           in if truthy chunk
                              then main_loop_while max_retries md5 evs
                                     (send_chunk (chunk_index + 1) (the chunk) sup3) (chunk_index + 1)
                              else main_loop_while max_retries md5 evs sup3 chunk_index))))
      else (Some (Inr chunk_index), spv))"

definition main_loop ::
  "nat \<Rightarrow> (bytes \<Rightarrow> bytes) \<Rightarrow> job_outcome list list \<Rightarrow> nat \<Rightarrow> UploadSupervisor
     \<Rightarrow> (exn + string) option \<times> UploadSupervisor" where
  "main_loop max_retries md5 schedule concurrency spv =
     (case begin_upload spv of
        Inl e \<Rightarrow> (Some (Inl e), spv)
      | Inr sup0 \<Rightarrow>
          (case main_loop_while max_retries md5 schedule (start_workers concurrency sup0) 0 of
             (None, sup1) \<Rightarrow> (None, sup1)
           | (Some (Inl e), sup1) \<Rightarrow> (Some (Inl e), sup1)
           | (Some (Inr n), sup1) \<Rightarrow>
               (case finish_upload sup1 of
                  (Inl e, sup2) \<Rightarrow> (Some (Inl e), sup2)
                | (Inr u, sup2) \<Rightarrow>
                    (let sup3 = sup2\<lparr>results := sort (results sup2)\<rparr>
                     in case multipart_etag md5 (map (\<lambda>r. fst (snd r)) (results sup3)) of
                          Inl e \<Rightarrow> (Some (Inl e), sup3)
                        | Inr etag \<Rightarrow> (Some (Inr etag), sup3)))))"




definition responds :: "nat \<Rightarrow> string \<Rightarrow> job_outcome" where
  "responds idx etag = (idx, \<lambda>attempt. Response 200 etag)"

definition fails :: "nat \<Rightarrow> job_outcome" where
  "fails idx = (idx, \<lambda>attempt. Raises)"

text \<open>The invariant of the main loop.\<close>

definition coordinator_inv ::
  "(bytes \<Rightarrow> bytes) \<Rightarrow> bytes list \<Rightarrow> UploadSupervisor \<Rightarrow> nat \<Rightarrow> bool" where
  "coordinator_inv md5 chunks spv ci =
     (map fst (enqueued spv) = [1..<Suc ci]
      \<and> map snd (enqueued spv) @ filter (\<lambda>c. c \<noteq> []) (fst (read_all (stream_handler spv))) = chunks
      \<and> pending_chunks spv = int ci - int (length (results spv))
      \<and> distinct (map fst (outbox spv) @ map r_index (inbox spv) @ map fst (results spv))
      \<and> set (outbox spv) \<subseteq> set (enqueued spv)
      \<and> (\<forall>r \<in> set (inbox spv). r_success r
            \<and> (\<exists>c. (r_index r, c) \<in> set (enqueued spv) \<and> r_md5 r = hexlify (md5 c)))
      \<and> (\<forall>r \<in> set (results spv).
            \<exists>c. (fst r, c) \<in> set (enqueued spv) \<and> fst (snd r) = hexlify (md5 c))
      \<and> (\<forall>job \<in> set (enqueued spv). snd job \<noteq> []))"

definition chunk_sequence :: "StreamHandler \<Rightarrow> bytes list" where
  "chunk_sequence sh = filter (\<lambda>c. c \<noteq> []) (emitted sh)"

text \<open>
  The composite tag in the words of the specification: the hex MD5 of the
  concatenated raw digests of the parts in order, a dash and the part count,
  between apostrophes.
\<close>

definition composite_etag :: "(bytes \<Rightarrow> bytes) \<Rightarrow> bytes list \<Rightarrow> string" where
  "composite_etag md5 chunks =
     [apostrophe] @ hexlify (md5 (concat (map md5 chunks))) @ ''-'' @ str_nat (length chunks)
     @ [apostrophe]"

definition toy_digest :: "bytes \<Rightarrow> bytes" where
  "toy_digest bs = [of_nat (length bs), foldr (+) bs 0]"

section \<open>pput: the chunk size for an estimated upload\<close>

text \<open>
  \<open>optimize_chunksize\<close> computes in double precision. The rounding of one
  operation to a double is the parameter \<open>fl\<close>: the integer is converted, the
  product with the double nearest to 1.05 and the quotient by 9999 are rounded,
  the larger of the quotient and 10 MiB is truncated by \<open>int\<close>. A rounding is
  correct when its relative error is at most \<open>2^-53\<close>, as round-to-nearest is
  within the range of a double; sizes beyond that range, where Python raises
  \<open>OverflowError\<close>, are outside the model.
\<close>

definition double_1_05 :: real where
  "double_1_05 = 4728779608739021 / 4503599627370496"

definition py_int :: "real \<Rightarrow> int" where
  "py_int x = (if x < 0 then \<lceil>x\<rceil> else \<lfloor>x\<rfloor>)"

definition optimize_chunksize :: "(real \<Rightarrow> real) \<Rightarrow> int \<Rightarrow> int" where
  "optimize_chunksize fl estimated =
     (let max_parts = 9999;
          estimated' = fl (fl (of_int estimated) * double_1_05);
          min_part_size = max (fl (estimated' / max_parts)) (10 * 1024 * 1024)
      in py_int min_part_size)"

definition correctly_rounded :: "(real \<Rightarrow> real) \<Rightarrow> bool" where
  "correctly_rounded fl = (\<forall>x. \<bar>fl x - x\<bar> \<le> \<bar>x\<bar> / 2 ^ 53)"

section \<open>Properties: metadata of the upload command\<close>








section \<open>Properties: the chunk reader\<close>

lemma get_chunk_None: "get_chunk sh = (None, sh') \<Longrightarrow> eof_reached sh \<and> sh' = sh"
  by (induction sh rule: get_chunk.induct)
     (subst (asm) (2) get_chunk.simps, auto simp: Let_def split: if_splits)

text \<open>One call of get_chunk, for a positive chunk size.\<close>

lemma read_more_chunk_size [simp]: "chunk_size (read_more sh) = chunk_size sh"
  by (simp add: read_more_def split: prod.splits)

lemma stream_read_length:
  "0 \<le> n \<Longrightarrow> stream_read n segs = (rd, rest) \<Longrightarrow> length rd \<le> nat n"
  by (induction n segs rule: stream_read.induct) (auto split: if_splits)

lemma stream_read_empty:
  "0 < n \<Longrightarrow> stream_read n segs = ([], rest) \<Longrightarrow> concat segs = []"
  by (induction n segs rule: stream_read.induct) (auto split: if_splits)

lemma get_chunk_step:
  assumes "0 < chunk_size sh" "\<not> eof_reached sh" "int (length (partial_chunk sh)) < chunk_size sh"
  shows "get_chunk sh = (r, sh') \<Longrightarrow>
         chunk_size sh' = chunk_size sh \<and> partial_chunk sh' = [] \<and>
         (let D = partial_chunk sh @ concat (input_stream sh); C = nat (chunk_size sh) in
            if C \<le> length D
            then r = Some (take C D) \<and> \<not> eof_reached sh' \<and> concat (input_stream sh') = drop C D
            else r = Some D \<and> eof_reached sh' \<and> concat (input_stream sh') = [])"
  using assms
proof (induction sh rule: get_chunk.induct)
  case (1 sh)
  let ?s = "read_more sh"
  let ?n = "chunk_size sh - int (length (partial_chunk sh))"
  obtain rd rest where sr: "stream_read ?n (input_stream sh) = (rd, rest)"
    by (cases "stream_read ?n (input_stream sh)")
  have s: "?s = sh\<lparr>input_stream := rest,
            eof_reached := (if length rd = 0 then True else eof_reached sh),
            partial_chunk := partial_chunk sh @ rd\<rparr>"
    by (simp add: read_more_def sr)
  have npos: "0 < ?n" using "1.prems" by simp
  have len: "length rd \<le> nat ?n" using stream_read_length [OF _ sr] npos by simp
  have cat: "concat (input_stream sh) = rd @ concat rest" using stream_read_concat [OF sr] .
  have D: "partial_chunk sh @ concat (input_stream sh) = partial_chunk ?s @ concat (input_stream ?s)"
    by (rule read_more_concat)
  show ?case
  proof (cases "int (length (partial_chunk ?s)) = chunk_size ?s \<or> eof_reached ?s")
    case True
    with "1.prems" have r: "r = Some (partial_chunk ?s)" and sh': "sh' = ?s\<lparr>partial_chunk := []\<rparr>"
      by (subst (asm) get_chunk.simps, auto simp: Let_def)+
    show ?thesis
    proof (cases "rd = []")
      case True
      then have e: "concat (input_stream sh) = []" using stream_read_empty [OF npos] sr by simp
      with True cat have e': "concat rest = []" by simp
      have nle: "\<not> nat (chunk_size sh) \<le> length (partial_chunk sh)" using "1.prems" by simp
      have c1: "concat (input_stream sh') = []" using sh' s e' by simp
      have c2: "partial_chunk sh @ concat (input_stream sh) = partial_chunk sh" using e by simp
      show ?thesis unfolding Let_def c2 using c1 r sh' s True nle by simp
    next
      case False
      with True s "1.prems" have full: "int (length (partial_chunk sh @ rd)) = chunk_size sh"
        by auto
      then have "nat (chunk_size sh) = length (partial_chunk sh @ rd)" by simp
      with False r sh' s "1.prems" cat show ?thesis by (auto simp: Let_def)
    qed
  next
    case False
    with "1.prems" have g: "get_chunk ?s = (r, sh')"
      by (subst (asm) get_chunk.simps) (auto simp: Let_def)
    from False s have rdne: "rd \<noteq> []" by (auto split: if_splits)
    from False len s "1.prems" have lt: "int (length (partial_chunk ?s)) < chunk_size ?s"
      by auto
    from False have ne: "\<not> eof_reached ?s" by simp
    have "0 < chunk_size ?s" using "1.prems" by simp
    from "1.IH" [OF "1.prems"(3) refl False g this ne lt] D
    show ?thesis by (simp add: Let_def)
  qed
qed

lemma read_all_eof: "eof_reached sh \<Longrightarrow> read_all sh = ([], sh)"
  by (simp add: read_all.simps get_chunk_eof)

lemma read_all_chunks:
  assumes "0 < chunk_size sh" "\<not> eof_reached sh" "partial_chunk sh = []"
  shows "\<exists>cs sh'. read_all sh = (cs, sh')
           \<and> concat cs = concat (input_stream sh)
           \<and> (\<forall>c \<in> set (butlast cs). int (length c) = chunk_size sh)
           \<and> cs \<noteq> []
           \<and> length (last cs) = length (concat (input_stream sh)) mod nat (chunk_size sh)
           \<and> length cs = length (concat (input_stream sh)) div nat (chunk_size sh) + 1
           \<and> eof_reached sh' \<and> partial_chunk sh' = []"
  using assms
proof (induction "length (concat (input_stream sh))" arbitrary: sh rule: less_induct)
  case less
  let ?S = "concat (input_stream sh)"
  let ?C = "nat (chunk_size sh)"
  have Cpos: "0 < ?C" using less.prems by simp
  obtain r sh1 where g: "get_chunk sh = (r, sh1)" by (cases "get_chunk sh")
  have lt: "int (length (partial_chunk sh)) < chunk_size sh" using less.prems by simp
  note st = get_chunk_step [OF less.prems(1) less.prems(2) lt g, unfolded Let_def, simplified less.prems(3) append_Nil]
  show ?case
  proof (cases "?C \<le> length ?S")
    case True
    with st have r: "r = Some (take ?C ?S)" and ne: "\<not> eof_reached sh1"
      and rest: "concat (input_stream sh1) = drop ?C ?S"
      and cs1: "chunk_size sh1 = chunk_size sh" and p1: "partial_chunk sh1 = []"
      by simp_all
    have shorter: "length (concat (input_stream sh1)) < length ?S"
      using rest True Cpos by simp
    from less.hyps [OF shorter] cs1 ne p1 less.prems(1)
    obtain cs sh' where ra: "read_all sh1 = (cs, sh')"
      and cat: "concat cs = concat (input_stream sh1)"
      and full: "\<forall>c \<in> set (butlast cs). int (length c) = chunk_size sh"
      and nonempty: "cs \<noteq> []"
      and lst: "length (last cs) = length (concat (input_stream sh1)) mod ?C"
      and cnt: "length cs = length (concat (input_stream sh1)) div ?C + 1"
      and fin: "eof_reached sh'" "partial_chunk sh' = []"
      by auto
    have all: "read_all sh = (take ?C ?S # cs, sh')"
      by (subst read_all.simps) (simp add: g r ra)
    have l1: "length (drop ?C ?S) mod ?C = length ?S mod ?C"
      using True by (simp add: le_mod_geq)
    have l2: "length (drop ?C ?S) div ?C + 1 = length ?S div ?C"
      using True Cpos by (simp add: le_div_geq)
    have tk: "int (length (take ?C ?S)) = chunk_size sh"
      using True less.prems(1) by simp
    from all cat rest full nonempty lst cnt fin l1 l2 tk show ?thesis
      by simp
  next
    case False
    with st have r: "r = Some ?S" and e: "eof_reached sh1"
      and p1: "partial_chunk sh1 = []"
      by simp_all
    have all: "read_all sh = ([?S], sh1)"
      by (subst read_all.simps) (simp add: g r read_all_eof [OF e])
    from all False e p1 show ?thesis by simp
  qed
qed

text \<open>
  C2 (as amended). For a positive chunk size \<open>C\<close> and any input stream with content
  \<open>S\<close> of length \<open>L\<close>, however the reads are cut, the values returned by successive
  \<open>get_chunk\<close> calls up to the first \<open>None\<close> concatenate to \<open>S\<close>; all but the last
  have length \<open>C\<close>; the last has length \<open>L mod C\<close>, so it is the empty byte string
  when \<open>L\<close> is a multiple of \<open>C\<close>; every non-empty one has between 1 and \<open>C\<close> bytes;
  there are \<open>L div C + 1\<close> of them; and from then on \<open>get_chunk\<close> returns \<open>None\<close>
  and leaves the reader unchanged.
\<close>

theorem get_chunk_chunking:
  assumes "0 < C"
  shows "\<exists>cs sh'. read_all (new_StreamHandler stream C) = (cs, sh')
           \<and> concat cs = concat stream
           \<and> (\<forall>c \<in> set (butlast cs). int (length c) = C)
           \<and> cs \<noteq> []
           \<and> length (last cs) = length (concat stream) mod nat C
           \<and> (\<forall>c \<in> set cs. c \<noteq> [] \<longrightarrow> 1 \<le> length c \<and> int (length c) \<le> C)
           \<and> length cs = length (concat stream) div nat C + 1
           \<and> finished sh' \<and> get_chunk sh' = (None, sh')"
proof -
  let ?sh = "new_StreamHandler stream C"
  have a: "0 < chunk_size ?sh" "\<not> eof_reached ?sh" "partial_chunk ?sh = []"
    using assms by (simp_all add: new_StreamHandler_def)
  from read_all_chunks [OF a]
  obtain cs sh' where ra: "read_all ?sh = (cs, sh')"
    and cat: "concat cs = concat stream"
    and full: "\<forall>c \<in> set (butlast cs). int (length c) = C"
    and ne: "cs \<noteq> []"
    and lst: "length (last cs) = length (concat stream) mod nat C"
    and cnt: "length cs = length (concat stream) div nat C + 1"
    and fin: "eof_reached sh'" "partial_chunk sh' = []"
    by (auto simp: new_StreamHandler_def)
  have short: "int (length (last cs)) \<le> C"
  proof -
    have "length (concat stream) mod nat C < nat C" using assms by simp
    with lst show ?thesis by simp
  qed
  have bound: "\<forall>c \<in> set cs. c \<noteq> [] \<longrightarrow> 1 \<le> length c \<and> int (length c) \<le> C"
  proof (intro ballI impI)
    fix c assume c: "c \<in> set cs" and cne: "c \<noteq> []"
    from ne c have "c \<in> set (butlast cs @ [last cs])" by simp
    then have "c \<in> set (butlast cs) \<or> c = last cs" by auto
    then have "int (length c) \<le> C"
    proof
      assume "c \<in> set (butlast cs)"
      with full show ?thesis by simp
    next
      assume "c = last cs"
      with short show ?thesis by simp
    qed
    moreover from cne have "1 \<le> length c" by (cases c) simp_all
    ultimately show "1 \<le> length c \<and> int (length c) \<le> C" by simp
  qed
  from fin have f: "finished sh'" by (simp add: finished_def)
  from fin have g: "get_chunk sh' = (None, sh')" by (simp add: get_chunk_eof)
  from ra cat full ne lst bound cnt f g show ?thesis by blast
qed

theorem get_chunk_chunking_witness:
  "(0::int) < 2
   \<and> read_all (new_StreamHandler [[1, 2, 3], [4]] 2)
       = ([[1, 2], [3, 4], []],
          \<lparr>input_stream = [], chunk_size = 2, partial_chunk = [], eof_reached = True\<rparr>)
   \<and> concat (fst (read_all (new_StreamHandler [[1, 2, 3], [4]] 2))) = concat [[1, 2, 3], [4]]
   \<and> length (concat [[1, 2, 3], [4 :: byte]]) mod nat 2 = 0"
proof -
  have e: "read_all (new_StreamHandler [[1, 2, 3], [4]] 2)
       = ([[1, 2], [3, 4], []],
          \<lparr>input_stream = [], chunk_size = 2, partial_chunk = [], eof_reached = True\<rparr>)"
    by code_simp
  have h: "(0::int) < 2" by simp
  from get_chunk_chunking [OF h, of "[[1, 2, 3], [4]]"] e h show ?thesis by simp
qed

text \<open>
  C2 as stated fails when the length is a multiple of the chunk size: for
  the two-byte stream and chunk size 2, the call after the full chunk returns an
  empty byte string, not \<open>None\<close>, and the last emitted chunk has length 0.
\<close>

theorem get_chunk_chunking_counterexample:
  "fst (get_chunk (snd (get_chunk (new_StreamHandler [[1, 2]] 2)))) = Some []
   \<and> emitted (new_StreamHandler [[1, 2]] 2) = [[1, 2], []]
   \<and> \<not> 1 \<le> length (last (emitted (new_StreamHandler [[1, 2]] 2)))"
  by code_simp

section \<open>Properties: lineage health\<close>

lemma reason_broken_health: "reason_broken cat s = health cat {} s"
  using is_healthy_rec_health [of cat "{}" s Map.empty]
  by (cases "is_healthy_rec cat {} s Map.empty") (auto simp: reason_broken_def)

text \<open>Shrinking the visited set keeps every result but cycle.\<close>

lemma health_shrink:
  "health cat V s \<noteq> Some CYCLE \<Longrightarrow> V' \<subseteq> V \<Longrightarrow> health cat V' s = health cat V s"
proof (induction cat V s arbitrary: V' rule: health.induct)
  case (1 cat V s)
  show ?case
  proof (cases "is_full s")
    case True
    then show ?thesis by (simp add: health.simps)
  next
    case nf: False
    have nv: "s3_name s \<notin> V"
      using "1.prems"(1) nf by (subst (asm) health.simps) auto
    with "1.prems"(2) have nv': "s3_name s \<notin> V'" by auto
    show ?thesis
    proof (cases "s3_parent cat s")
      case None
      with nf nv nv' show ?thesis by (simp add: health.simps)
    next
      case (Some p)
      have hs: "\<And>W. s3_name s \<notin> W \<Longrightarrow> health cat W s =
        (case health cat (insert (s3_name s) W) p of
                   None \<Rightarrow> None
                 | Some r \<Rightarrow> if r = CYCLE then Some CYCLE else Some PARENT_BROKEN)"
        by (subst health.simps) (simp add: nf Some)
      have "health cat (insert (s3_name s) V) p \<noteq> Some CYCLE"
        using "1.prems"(1) hs [OF nv] by (auto split: option.splits)
      moreover have "insert (s3_name s) V' \<subseteq> insert (s3_name s) V"
        using "1.prems"(2) by auto
      ultimately have "health cat (insert (s3_name s) V') p = health cat (insert (s3_name s) V) p"
        using "1.IH" [OF nf nv Some] by blast
      with hs [OF nv] hs [OF nv'] show ?thesis by simp
    qed
  qed
qed

lemma health_on_cycle: "(x, x) \<in> (step cat)\<^sup>+ \<Longrightarrow> health cat V x = Some CYCLE"
proof (induction cat V x rule: health.induct)
  case (1 cat V x)
  from "1.prems" obtain y where xy: "(x, y) \<in> step cat" and yx: "(y, x) \<in> (step cat)\<^sup>*"
    by (auto dest: tranclD)
  then have nf: "\<not> is_full x" and p: "s3_parent cat x = Some y" by (auto simp: step_def)
  show ?case
  proof (cases "s3_name x \<in> V")
    case True
    with nf show ?thesis by (simp add: health.simps)
  next
    case False
    from yx xy have "(y, y) \<in> (step cat)\<^sup>+" by (rule rtrancl_into_trancl1)
    from "1.IH" [OF nf False p this] nf False p show ?thesis
      by (subst health.simps) simp
  qed
qed

lemma health_reaches_cycle:
  "(x, y) \<in> (step cat)\<^sup>* \<Longrightarrow> (y, y) \<in> (step cat)\<^sup>+ \<Longrightarrow> health cat V x = Some CYCLE"
proof (induction arbitrary: V rule: converse_rtrancl_induct)
  case base
  then show ?case by (rule health_on_cycle)
next
  case (step x z)
  then have nf: "\<not> is_full x" and p: "s3_parent cat x = Some z" by (auto simp: step_def)
  from step.IH [OF step.prems] have "health cat (insert (s3_name x) V) z = Some CYCLE" .
  with nf p show ?case by (subst health.simps) simp
qed

lemma s3_get_in_catalog: "s3_get cat key = Some p \<Longrightarrow> in_catalog cat p"
  by (auto simp: s3_get_def in_catalog_def split: option.splits)

lemma parent_in_catalog': "s3_parent cat s = Some p \<Longrightarrow> in_catalog cat p"
  unfolding s3_parent_def by (rule s3_get_in_catalog)

lemma step_in_catalog: "(x, y) \<in> (step cat)\<^sup>* \<Longrightarrow> in_catalog cat x \<Longrightarrow> in_catalog cat y"
  by (induction rule: rtrancl_induct) (auto simp: step_def dest: parent_in_catalog')

lemma in_catalog_same_name:
  "in_catalog cat a \<Longrightarrow> in_catalog cat b \<Longrightarrow> s3_name a = s3_name b \<Longrightarrow> a = b"
  by (simp add: in_catalog_def)

lemma health_cycle_cause:
  "health cat V x = Some CYCLE \<Longrightarrow> in_catalog cat x \<Longrightarrow>
     health cat {} x = Some CYCLE \<or> (\<exists>y. (x, y) \<in> (step cat)\<^sup>* \<and> s3_name y \<in> V)"
proof (induction cat V x rule: health.induct)
  case (1 cat V x)
  have nf: "\<not> is_full x" using "1.prems"(1) by (subst (asm) health.simps) (auto split: if_splits)
  show ?case
  proof (cases "s3_name x \<in> V")
    case True
    then show ?thesis by blast
  next
    case nv: False
    show ?thesis
    proof (cases "s3_parent cat x")
      case None
      with "1.prems"(1) nf nv show ?thesis by (subst (asm) health.simps) simp
    next
      case (Some p)
      have hs: "\<And>W. s3_name x \<notin> W \<Longrightarrow> health cat W x =
        (case health cat (insert (s3_name x) W) p of
                   None \<Rightarrow> None
                 | Some r \<Rightarrow> if r = CYCLE then Some CYCLE else Some PARENT_BROKEN)"
        by (subst health.simps) (simp add: nf Some)
      have pc: "health cat (insert (s3_name x) V) p = Some CYCLE"
        using "1.prems"(1) hs [OF nv] by (auto split: option.splits if_splits)
      have xp: "(x, p) \<in> step cat" using nf Some by (simp add: step_def)
      have pin: "in_catalog cat p" using Some by (rule parent_in_catalog')
      from "1.IH" [OF nf nv Some pc pin]
      consider (a) "health cat {} p = Some CYCLE"
        | (b) y where "(p, y) \<in> (step cat)\<^sup>*" "s3_name y \<in> insert (s3_name x) V"
        by blast
      then show ?thesis
      proof cases
        case a
        have "health cat {s3_name x} p = Some CYCLE"
        proof (rule ccontr)
          assume "health cat {s3_name x} p \<noteq> Some CYCLE"
          from health_shrink [OF this, of "{}"] this a show False by simp
        qed
        then have "health cat {} x = Some CYCLE" using hs [of "{}"] by simp
        then show ?thesis by blast
      next
        case b
        show ?thesis
        proof (cases "s3_name y \<in> V")
          case True
          from xp b(1) have "(x, y) \<in> (step cat)\<^sup>*" by (rule converse_rtrancl_into_rtrancl)
          with True show ?thesis by blast
        next
          case False
          with b(2) have same: "s3_name y = s3_name x" by simp
          have "in_catalog cat y" using step_in_catalog [OF b(1) pin] .
          with "1.prems"(2) same have "y = x" by (metis in_catalog_same_name)
          with xp b(1) have "(x, x) \<in> (step cat)\<^sup>+" by (metis rtrancl_into_trancl2)
          then have "health cat {} x = Some CYCLE" by (rule health_on_cycle)
          then show ?thesis by blast
        qed
      qed
    qed
  qed
qed

lemma ancestor_add:
  "ancestor cat (i + k) s = (case ancestor cat i s of None \<Rightarrow> None | Some a \<Rightarrow> ancestor cat k a)"
  by (induction i arbitrary: s) (auto split: option.splits)

lemma ancestor_steps: "ancestor cat n s = Some a \<Longrightarrow> (s, a) \<in> (step cat)\<^sup>*"
proof (induction n arbitrary: s)
  case 0
  then show ?case by simp
next
  case (Suc n)
  then obtain p where nf: "\<not> is_full s" and p: "s3_parent cat s = Some p"
    and a: "ancestor cat n p = Some a"
    by (auto split: if_splits option.splits)
  from nf p have "(s, p) \<in> step cat" by (simp add: step_def)
  with Suc.IH [OF a] show ?case by (auto intro: converse_rtrancl_into_rtrancl)
qed

lemma ancestor_steps_pos: "ancestor cat (Suc n) s = Some a \<Longrightarrow> (s, a) \<in> (step cat)\<^sup>+"
proof -
  assume h: "ancestor cat (Suc n) s = Some a"
  then obtain p where nf: "\<not> is_full s" and p: "s3_parent cat s = Some p"
    and a: "ancestor cat n p = Some a"
    by (auto split: if_splits option.splits)
  from nf p have "(s, p) \<in> step cat" by (simp add: step_def)
  with ancestor_steps [OF a] show ?thesis by (auto intro: rtrancl_into_trancl2)
qed

lemma health_revisit:
  assumes "in_catalog cat s" "i < j" "ancestor cat i s = Some a" "ancestor cat j s = Some b"
    "s3_name a = s3_name b"
  shows "health cat V s = Some CYCLE"
proof -
  from assms(2) obtain k where j: "j = i + Suc k" by (auto simp: less_iff_Suc_add)
  from assms(3,4) have ab: "ancestor cat (Suc k) a = Some b"
    unfolding j by (simp only: ancestor_add option.case)
  have sa: "(s, a) \<in> (step cat)\<^sup>*" using assms(3) by (rule ancestor_steps)
  have ab': "(a, b) \<in> (step cat)\<^sup>+" using ab by (rule ancestor_steps_pos)
  have "in_catalog cat a" using step_in_catalog [OF sa assms(1)] .
  moreover have "in_catalog cat b" using step_in_catalog [OF _ assms(1)] sa ab'
    by (meson rtrancl_trans trancl_into_rtrancl)
  ultimately have "a = b" using assms(5) by (rule in_catalog_same_name)
  with ab' have "(a, a) \<in> (step cat)\<^sup>+" by simp
  with sa show ?thesis by (rule health_reaches_cycle)
qed

lemma health_child:
  assumes "\<not> is_full s" "s3_parent cat s = Some p"
  shows "health cat {} s =
        (case health cat {s3_name s} p of
                   None \<Rightarrow> None
                 | Some r \<Rightarrow> if r = CYCLE then Some CYCLE else Some PARENT_BROKEN)"
  by (subst health.simps) (simp add: assms)

lemma health_parent_visited:
  assumes "in_catalog cat s" "\<not> is_full s" "s3_parent cat s = Some p"
  shows "health cat {s3_name s} p = health cat {} p"
proof (cases "health cat {s3_name s} p = Some CYCLE")
  case False
  from health_shrink [OF False, of "{}"] show ?thesis by simp
next
  case True
  have pin: "in_catalog cat p" using assms(3) by (rule parent_in_catalog')
  have sp: "(s, p) \<in> step cat" using assms by (simp add: step_def)
  from health_cycle_cause [OF True pin]
  show ?thesis
  proof
    assume "health cat {} p = Some CYCLE"
    with True show ?thesis by simp
  next
    assume "\<exists>y. (p, y) \<in> (step cat)\<^sup>* \<and> s3_name y \<in> {s3_name s}"
    then obtain y where py: "(p, y) \<in> (step cat)\<^sup>*" and n: "s3_name y = s3_name s" by auto
    have "in_catalog cat y" using step_in_catalog [OF py pin] .
    with assms(1) n have "y = s" by (metis in_catalog_same_name)
    with py sp have "(p, p) \<in> (step cat)\<^sup>+" by (metis rtrancl_into_trancl1)
    then have "health cat {} p = Some CYCLE" by (rule health_on_cycle)
    with True show ?thesis by simp
  qed
qed

text \<open>
  Every walk writes, for each snapshot it marks, the reason that snapshot gets
  when classified on its own: whatever was evaluated before, the reason read
  from a snapshot is the one of its first evaluation.
\<close>

lemma health_on_path:
  assumes "in_catalog cat s" "on_path cat V s"
  shows "health cat V s = health cat {} s"
proof (cases "health cat V s = Some CYCLE")
  case False
  from health_shrink [OF False, of "{}"] show ?thesis by simp
next
  case True
  from health_cycle_cause [OF True assms(1)]
  show ?thesis
  proof
    assume "health cat {} s = Some CYCLE"
    with True show ?thesis by simp
  next
    assume "\<exists>y. (s, y) \<in> (step cat)\<^sup>* \<and> s3_name y \<in> V"
    then obtain y where sy: "(s, y) \<in> (step cat)\<^sup>*" and n: "s3_name y \<in> V" by auto
    from assms(2) n obtain y' where y': "in_catalog cat y'" "s3_name y' = s3_name y"
      and ys: "(y', s) \<in> (step cat)\<^sup>+" unfolding on_path_def by blast
    have "in_catalog cat y" using step_in_catalog [OF sy assms(1)] .
    with y' have "y' = y" by (metis in_catalog_same_name)
    with sy ys have "(s, s) \<in> (step cat)\<^sup>+" by (metis rtrancl_trancl_trancl)
    then have "health cat {} s = Some CYCLE" by (rule health_on_cycle)
    with True show ?thesis by simp
  qed
qed

lemma on_path_parent:
  assumes "in_catalog cat s" "on_path cat V s" "\<not> is_full s" "s3_parent cat s = Some p"
  shows "on_path cat (insert (s3_name s) V) p"
proof -
  have sp: "(s, p) \<in> step cat" using assms(3,4) by (simp add: step_def)
  show ?thesis
    unfolding on_path_def
  proof
    fix v assume "v \<in> insert (s3_name s) V"
    then show "\<exists>y. in_catalog cat y \<and> s3_name y = v \<and> (y, p) \<in> (step cat)\<^sup>+"
    proof
      assume "v = s3_name s"
      with assms(1) sp show ?thesis by blast
    next
      assume "v \<in> V"
      with assms(2) obtain y where y: "in_catalog cat y" "s3_name y = v"
        and ys: "(y, s) \<in> (step cat)\<^sup>+"
        unfolding on_path_def by blast
      from ys sp have "(y, p) \<in> (step cat)\<^sup>+" by (rule trancl.trancl_into_trancl)
      with y show ?thesis by blast
    qed
  qed
qed

lemma consistent_update:
  assumes "consistent cat st" "in_catalog cat s" "health cat {} s = Some r"
  shows "consistent cat (st(s3_name s \<mapsto> r))"
  unfolding consistent_def
proof (intro allI impI)
  fix s' r' assume a: "in_catalog cat s' \<and> (st(s3_name s \<mapsto> r)) (s3_name s') = Some r'"
  show "health cat {} s' = Some r'"
  proof (cases "s3_name s' = s3_name s")
    case True
    with a assms(2) have "s' = s" by (metis in_catalog_same_name)
    with a assms(3) show ?thesis by simp
  next
    case False
    with a assms(1) show ?thesis by (simp add: consistent_def)
  qed
qed

lemma is_healthy_rec_consistent:
  "is_healthy_rec cat V s st = (h, st') \<Longrightarrow> in_catalog cat s \<Longrightarrow> on_path cat V s \<Longrightarrow>
     consistent cat st \<Longrightarrow> consistent cat st'"
proof (induction cat V s st arbitrary: h st' rule: is_healthy_rec.induct)
  case (1 cat V s st)
  note hv = health_on_path [OF "1.prems"(2,3)]
  from is_healthy_rec_health [OF "1.prems"(1)]
  have top: "h = (health cat V s = None)" "\<not> h \<longrightarrow> st' (s3_name s) = health cat V s"
    "h \<longrightarrow> st' = st" by auto
  show ?case
  proof (cases h)
    case True
    with top "1.prems"(4) show ?thesis by simp
  next
    case False
    then obtain r where r: "health cat {} s = Some r" using top(1) hv by auto
    have nf: "\<not> is_full s"
      using "1.prems"(1) False by (subst (asm) is_healthy_rec.simps) (auto split: if_splits)
    show ?thesis
    proof (cases "s3_name s \<in> V \<or> s3_parent cat s = None")
      case True
      with "1.prems"(1) nf have e: "st' = st(s3_name s \<mapsto> r)"
        using r hv top(2) False
        by (subst (asm) is_healthy_rec.simps) (auto split: if_splits)
      show ?thesis unfolding e using "1.prems"(4,2) r by (rule consistent_update)
    next
      case nb: False
      then have nv: "s3_name s \<notin> V" by simp
      from nb obtain p where p: "s3_parent cat s = Some p" by auto
      obtain hp stp where rec: "is_healthy_rec cat (insert (s3_name s) V) p st = (hp, stp)"
        by (cases "is_healthy_rec cat (insert (s3_name s) V) p st")
      have pin: "in_catalog cat p" using p by (rule parent_in_catalog')
      have pp: "on_path cat (insert (s3_name s) V) p"
        using "1.prems"(2,3) nf p by (rule on_path_parent)
      have cp: "consistent cat stp"
        using "1.IH" [OF nf nv p rec pin pp "1.prems"(4)] .
      have e: "st' = stp(s3_name s \<mapsto> r)"
        using "1.prems"(1) nf nv p rec False r hv top(2)
        by (subst (asm) is_healthy_rec.simps) (auto split: if_splits bool.splits)
      show ?thesis unfolding e using cp "1.prems"(2) r by (rule consistent_update)
    qed
  qed
qed

lemma consistent_empty: "consistent cat Map.empty"
  by (simp add: consistent_def)

lemma on_path_empty: "on_path cat {} s"
  by (simp add: on_path_def)

lemma is_healthy_any_store:
  assumes "is_healthy_rec cat {} s st = (h, st')" "in_catalog cat s" "consistent cat st"
  shows "h = is_healthy cat s \<and> consistent cat st'
         \<and> (\<not> h \<longrightarrow> st' (s3_name s) = reason_broken cat s)"
  using is_healthy_rec_health [OF assms(1)]
    is_healthy_rec_consistent [OF assms(1,2) on_path_empty assms(3)]
  by (simp add: is_healthy_health reason_broken_health)

text \<open>
  C6. For a snapshot \<open>s\<close> of the catalog: it is healthy exactly when it has no
  reason; a full snapshot is healthy, whatever its parent link; a snapshot that
  is not full and whose parent is not in the catalog is \<open>MISSING_PARENT\<close>; one
  whose chain of ancestors meets the same snapshot twice is \<open>CYCLE\<close>; one that
  is not full and whose parent is \<open>CYCLE\<close> is \<open>CYCLE\<close>; one that is not full and
  whose parent is \<open>MISSING_PARENT\<close> or \<open>PARENT_BROKEN\<close> is \<open>PARENT_BROKEN\<close>; and one
  whose parent is healthy is healthy.
\<close>

theorem lineage_health_classification:
  assumes "in_catalog cat s"
  shows "(is_healthy cat s = (reason_broken cat s = None))
    \<and> (is_full s \<longrightarrow> is_healthy cat s)
    \<and> (\<not> is_full s \<and> s3_parent cat s = None \<longrightarrow> reason_broken cat s = Some MISSING_PARENT)
    \<and> (\<forall>i j a b. i < j \<and> ancestor cat i s = Some a \<and> ancestor cat j s = Some b
           \<and> s3_name a = s3_name b \<longrightarrow> reason_broken cat s = Some CYCLE)
    \<and> (\<forall>p. \<not> is_full s \<and> s3_parent cat s = Some p \<and> reason_broken cat p = Some CYCLE
           \<longrightarrow> reason_broken cat s = Some CYCLE)
    \<and> (\<forall>p. \<not> is_full s \<and> s3_parent cat s = Some p
           \<and> (reason_broken cat p = Some MISSING_PARENT \<or> reason_broken cat p = Some PARENT_BROKEN)
           \<longrightarrow> reason_broken cat s = Some PARENT_BROKEN)
    \<and> (\<forall>p. \<not> is_full s \<and> s3_parent cat s = Some p \<and> is_healthy cat p \<longrightarrow> is_healthy cat s)"
proof -
  have c0: "is_healthy cat s = (reason_broken cat s = None)"
    by (simp add: is_healthy_health reason_broken_health)
  have c1: "is_full s \<longrightarrow> is_healthy cat s"
    by (simp add: is_healthy_health health.simps)
  have c2: "\<not> is_full s \<and> s3_parent cat s = None \<longrightarrow> reason_broken cat s = Some MISSING_PARENT"
    by (simp add: reason_broken_health health.simps)
  have c3: "\<forall>i j a b. i < j \<and> ancestor cat i s = Some a \<and> ancestor cat j s = Some b
           \<and> s3_name a = s3_name b \<longrightarrow> reason_broken cat s = Some CYCLE"
    using health_revisit [OF assms] by (simp add: reason_broken_health) blast
  have c4: "\<forall>p. \<not> is_full s \<and> s3_parent cat s = Some p \<and> reason_broken cat p = Some CYCLE
           \<longrightarrow> reason_broken cat s = Some CYCLE"
    by (auto simp: reason_broken_health health_child health_parent_visited [OF assms])
  have c5: "\<forall>p. \<not> is_full s \<and> s3_parent cat s = Some p
           \<and> (reason_broken cat p = Some MISSING_PARENT \<or> reason_broken cat p = Some PARENT_BROKEN)
           \<longrightarrow> reason_broken cat s = Some PARENT_BROKEN"
    by (auto simp: reason_broken_health health_child health_parent_visited [OF assms])
  have c6: "\<forall>p. \<not> is_full s \<and> s3_parent cat s = Some p \<and> is_healthy cat p \<longrightarrow> is_healthy cat s"
    by (auto simp: is_healthy_health health_child health_parent_visited [OF assms])
  from c0 c1 c2 c3 c4 c5 c6 show ?thesis by blast
qed

theorem lineage_health_classification_witness:
  "in_catalog demo_catalog \<lparr>s3_name = ''D@a'', s3_metadata = [''isfull'' \<mapsto> ''true''], s3_size = 10\<rparr>
   \<and> is_full \<lparr>s3_name = ''D@a'', s3_metadata = [''isfull'' \<mapsto> ''true''], s3_size = 10\<rparr>
   \<and> is_healthy demo_catalog \<lparr>s3_name = ''D@a'', s3_metadata = [''isfull'' \<mapsto> ''true''], s3_size = 10\<rparr>
   \<and> in_catalog demo_catalog (demo_snap ''D@c'' ''D@x'' 12)
   \<and> \<not> is_full (demo_snap ''D@c'' ''D@x'' 12)
   \<and> s3_parent demo_catalog (demo_snap ''D@c'' ''D@x'' 12) = None
   \<and> reason_broken demo_catalog (demo_snap ''D@c'' ''D@x'' 12) = Some MISSING_PARENT
   \<and> in_catalog demo_catalog (demo_snap ''D@d'' ''D@c'' 13)
   \<and> \<not> is_full (demo_snap ''D@d'' ''D@c'' 13)
   \<and> s3_parent demo_catalog (demo_snap ''D@d'' ''D@c'' 13) = Some (demo_snap ''D@c'' ''D@x'' 12)
   \<and> reason_broken demo_catalog (demo_snap ''D@d'' ''D@c'' 13) = Some PARENT_BROKEN
   \<and> in_catalog demo_catalog (demo_snap ''D@e'' ''D@f'' 14)
   \<and> ancestor demo_catalog 0 (demo_snap ''D@e'' ''D@f'' 14) = Some (demo_snap ''D@e'' ''D@f'' 14)
   \<and> ancestor demo_catalog 2 (demo_snap ''D@e'' ''D@f'' 14) = Some (demo_snap ''D@e'' ''D@f'' 14)
   \<and> reason_broken demo_catalog (demo_snap ''D@e'' ''D@f'' 14) = Some CYCLE
   \<and> in_catalog demo_catalog (demo_snap ''D@g'' ''D@e'' 16)
   \<and> \<not> is_full (demo_snap ''D@g'' ''D@e'' 16)
   \<and> s3_parent demo_catalog (demo_snap ''D@g'' ''D@e'' 16) = Some (demo_snap ''D@e'' ''D@f'' 14)
   \<and> reason_broken demo_catalog (demo_snap ''D@g'' ''D@e'' 16) = Some CYCLE"
proof -
  let ?a = "\<lparr>s3_name = ''D@a'', s3_metadata = [''isfull'' \<mapsto> ''true''], s3_size = 10\<rparr>"
  let ?c = "demo_snap ''D@c'' ''D@x'' 12"
  let ?d = "demo_snap ''D@d'' ''D@c'' 13"
  let ?e = "demo_snap ''D@e'' ''D@f'' 14"
  let ?g = "demo_snap ''D@g'' ''D@e'' 16"
  note defs = in_catalog_def s3_get_def demo_catalog_def demo_snap_def s3_parent_def is_full_def
  have ia: "in_catalog demo_catalog ?a" and fa: "is_full ?a" by (simp_all add: defs)
  have ic: "in_catalog demo_catalog ?c" and nc: "\<not> is_full ?c"
    and pc: "s3_parent demo_catalog ?c = None" by (simp_all add: defs)
  have id: "in_catalog demo_catalog ?d" and nd: "\<not> is_full ?d"
    and pd: "s3_parent demo_catalog ?d = Some ?c" by (simp_all add: defs)
  have ie: "in_catalog demo_catalog ?e" and ne: "\<not> is_full ?e"
    and e0: "ancestor demo_catalog 0 ?e = Some ?e"
    and e2: "ancestor demo_catalog 2 ?e = Some ?e"
    by (simp_all add: defs numeral_2_eq_2)
  have ig: "in_catalog demo_catalog ?g" and ng: "\<not> is_full ?g"
    and pg: "s3_parent demo_catalog ?g = Some ?e" by (simp_all add: defs)
  have ra: "is_healthy demo_catalog ?a"
    using lineage_health_classification [OF ia] fa by blast
  have rc: "reason_broken demo_catalog ?c = Some MISSING_PARENT"
    using lineage_health_classification [OF ic] nc pc by blast
  have rd: "reason_broken demo_catalog ?d = Some PARENT_BROKEN"
    using lineage_health_classification [OF id] nd pd rc by blast
  have re: "reason_broken demo_catalog ?e = Some CYCLE"
    using lineage_health_classification [OF ie] e0 e2 by (metis zero_less_numeral)
  have rg: "reason_broken demo_catalog ?g = Some CYCLE"
    using lineage_health_classification [OF ig] ng pg re by blast
  from ia fa ra ic nc pc rc id nd pd rd ie e0 e2 re ig ng pg rg show ?thesis by blast
qed

section \<open>Properties: restore and incremental backup\<close>








text \<open>
  The pipelines reach the shell through \<open>pipe\<close>: with \<open>pv\<close> it is the two
  commands around \<open>pv\<close>, without it the text of the source's string literal.
\<close>

lemma pipe_with_pv:
  "pipe True False pc
     = pc_cmd1 pc @ '' | pv --size '' @ str_int (pc_estimated_size pc) @ ''| '' @ pc_cmd2 pc"
  by (simp add: pipe_def)

lemma pipe_without_pv: "pipe False quiet pc = ''{cmd1} | {cmd2}''"
  by (simp add: pipe_def)

text \<open>
  Incremental backup when a snapshot of the chain is present remotely: the
  snapshots before the first present one are uploaded oldest first, each against
  its local parent, when that remote snapshot is healthy; nothing is sent when it
  is not.
\<close>

lemma lineage_hd: "\<exists>rest. lineage z = z # rest"
  by (cases z) simp

lemma lineage_split:
  "lineage z = pre @ x # post \<Longrightarrow> pre \<noteq> [] \<Longrightarrow>
     \<exists>p pre'. z_parent z = Some p \<and> pre = z # pre' \<and> lineage p = pre' @ x # post"
  by (cases z; cases pre) (auto split: option.splits)

lemma lineage_parents:
  "lineage z = pre @ x # post \<Longrightarrow> \<forall>y \<in> set pre. z_parent y \<noteq> None"
proof (induction pre arbitrary: z)
  case Nil
  then show ?case by simp
next
  case (Cons a pre)
  from lineage_split [OF Cons.prems] obtain p where p: "z_parent z = Some p"
    and a: "a = z" and l: "lineage p = pre @ x # post" by auto
  from Cons.IH [OF l] p a show ?case by simp
qed

lemma backup_walk_found:
  "lineage z = pre @ x # post \<Longrightarrow> \<forall>y \<in> set pre. missing_remotely cat y \<Longrightarrow>
     s3_get cat (Some (z_name x)) = Some s \<Longrightarrow>
     backup_walk cat z acc
       = (if is_healthy cat s then Inr (acc @ pre) else Inl (IntegrityError broken_literal))"
proof (induction pre arbitrary: z acc)
  case Nil
  then have "z = x" using lineage_hd [of z] by auto
  with Nil show ?case by (cases x) simp
next
  case (Cons a pre)
  from lineage_split [OF Cons.prems(1)] obtain p where p: "z_parent z = Some p"
    and a: "a = z" and l: "lineage p = pre @ x # post" by auto
  from Cons.prems(2) a have m: "s3_get cat (Some (z_name z)) = None"
    by (simp add: missing_remotely_def)
  from Cons.prems(2) have m': "\<forall>y \<in> set pre. missing_remotely cat y" by simp
  have "backup_walk cat z acc = backup_walk cat p (acc @ [z])"
    using p m by (cases z) simp
  also have "\<dots> = (if is_healthy cat s then Inr ((acc @ [z]) @ pre)
                   else Inl (IntegrityError broken_literal))"
    using Cons.IH [OF l m' Cons.prems(3)] .
  finally show ?case using a by simp
qed

lemma backup_walk_none_found:
  "\<forall>y \<in> set (lineage z). missing_remotely cat y \<Longrightarrow>
     backup_walk cat z acc = Inr (acc @ lineage z)"
proof (induction z arbitrary: acc rule: lineage.induct)
  case (1 n par)
  then have m: "s3_get cat (Some n) = None" by (simp add: missing_remotely_def)
  show ?case
  proof (cases par)
    case None
    with m show ?thesis by simp
  next
    case (Some p)
    from "1.prems" Some have "\<forall>y \<in> set (lineage p). missing_remotely cat y" by simp
    from "1.IH" [OF Some this] m Some show ?thesis by simp
  qed
qed

lemma lineage_nonempty [simp]: "lineage z \<noteq> []"
  by (cases z) simp

lemma lineage_last: "z_parent (last (lineage z)) = None"
  by (induction z rule: lineage.induct) (auto split: option.splits)

lemma upload_each_ok:
  assumes "\<forall>c. \<exists>n. dry_send_size (pm_cmd pm) c = Inr n"
    and "\<forall>pc. pipe_result (pm_cmd pm) pc = None"
  shows "\<forall>z \<in> set zs. z_parent z \<noteq> None \<Longrightarrow>
     upload_each pm dry_run zs issued uploaded_meta
       = (Inr (uploaded_meta @ map (\<lambda>z. (z_name z, upload_size pm z)) zs),
          issued @ concat (map (upload_commands pm dry_run) zs))"
proof (induction zs arbitrary: issued uploaded_meta)
  case Nil
  then show ?case by simp
next
  case (Cons z zs)
  then obtain p where p: "z_parent z = Some p" by auto
  let ?dry = "''zfs send -nvP -i '' @ quoted (z_name p) @ '' '' @ quoted (z_name z)"
  from assms(1) obtain n where n: "dry_send_size (pm_cmd pm) ?dry = Inr n" by blast
  from Cons.prems have zs: "\<forall>z \<in> set zs. z_parent z \<noteq> None" by simp
  have c: "upload_commands pm dry_run z
             = [Shell ?dry, Pipe (incremental_pipe pm dry_run (z_name p) (z_name z) n)]"
    using p n by (simp add: upload_commands_def)
  have s: "upload_size pm z = n" using p n by (simp add: upload_size_def)
  have "upload_each pm dry_run (z # zs) issued uploaded_meta
          = upload_each pm dry_run zs
              (issued @ [Shell ?dry, Pipe (incremental_pipe pm dry_run (z_name p) (z_name z) n)])
              (uploaded_meta @ [(z_name z, n)])"
    using p n assms(2) by (simp add: Let_def)
  with Cons.IH [OF zs] c s show ?case by simp
qed

lemma upload_each_root:
  "z_parent z = None \<Longrightarrow>
     upload_each pm dry_run (z # zs) issued uploaded_meta
       = (Inl (AttributeError none_has_no_name), issued)"
  by simp

lemma backup_incremental_uploads:
  assumes "snapshot_to_backup pm T = Inr z"
    and "lineage z = pre @ x # post"
    and "\<forall>y \<in> set pre. missing_remotely (pm_catalog pm) y"
    and "s3_get (pm_catalog pm) (Some (z_name x)) = Some s"
    and "is_healthy (pm_catalog pm) s"
    and "\<forall>c. \<exists>n. dry_send_size (pm_cmd pm) c = Inr n"
    and "\<forall>pc. pipe_result (pm_cmd pm) pc = None"
  shows "backup_incremental pm T dry_run
           = (Inr (map (\<lambda>z. (z_name z, upload_size pm z)) (rev pre)),
              concat (map (upload_commands pm dry_run) (rev pre)))"
proof -
  have w: "backup_walk (pm_catalog pm) z [] = Inr pre"
    using backup_walk_found [OF assms(2,3,4), of "[]"] assms(5) by simp
  have "\<forall>y \<in> set (rev pre). z_parent y \<noteq> None"
    using lineage_parents [OF assms(2)] by simp
  from upload_each_ok [OF assms(6,7) this, of dry_run "[]" "[]"] w assms(1)
  show ?thesis by (simp add: backup_incremental_def)
qed

lemma backup_incremental_unhealthy:
  assumes "snapshot_to_backup pm T = Inr z"
    and "lineage z = pre @ x # post"
    and "\<forall>y \<in> set pre. missing_remotely (pm_catalog pm) y"
    and "s3_get (pm_catalog pm) (Some (z_name x)) = Some s"
    and "\<not> is_healthy (pm_catalog pm) s"
  shows "backup_incremental pm T dry_run = (Inl (IntegrityError broken_literal), [])"
  using backup_walk_found [OF assms(2,3,4), of "[]"] assms(1,5)
  by (simp add: backup_incremental_def)

lemma upload_commands_parent:
  "z_parent z = Some p \<Longrightarrow> dry_send_size (pm_cmd pm)
       (''zfs send -nvP -i '' @ quoted (z_name p) @ '' '' @ quoted (z_name z)) = Inr n \<Longrightarrow>
   upload_commands pm dry_run z =
     [Shell (''zfs send -nvP -i '' @ quoted (z_name p) @ '' '' @ quoted (z_name z)),
      Pipe \<lparr>pc_cmd1 = ''zfs send -i '' @ quoted (z_name p) @ '' '' @ quoted (z_name z),
            pc_cmd2 = compress pm (pput_cmd (pm_compressor pm) n (pm_s3_prefix pm) (z_name z)
                                     (Some (z_name p))),
            pc_dry_run = dry_run, pc_estimated_size = n\<rparr>]"
  by (simp add: upload_commands_def incremental_pipe_def)

text \<open>
  C4. When no snapshot of the target's local chain is present remotely, the walk
  collects the whole chain, the root included, and the upload loop fails on the
  root's missing parent before it has issued any command: nothing is uploaded.
\<close>

theorem backup_incremental_without_remote_ancestor:
  assumes "snapshot_to_backup pm T = Inr z"
    and "\<forall>y \<in> set (lineage z). missing_remotely (pm_catalog pm) y"
  shows "backup_walk (pm_catalog pm) z [] = Inr (lineage z)
         \<and> backup_incremental pm T dry_run = (Inl (AttributeError none_has_no_name), [])"
proof -
  have w: "backup_walk (pm_catalog pm) z [] = Inr (lineage z)"
    using backup_walk_none_found [OF assms(2), of "[]"] by simp
  have r: "rev (lineage z) = last (lineage z) # rev (butlast (lineage z))"
    by (metis lineage_nonempty append_butlast_last_id rev.simps(2) rev_append rev_rev_ident
          rev_singleton_conv append_Cons append_Nil)
  have "upload_each pm dry_run (rev (lineage z)) [] []
               = (Inl (AttributeError none_has_no_name), [])"
    unfolding r by (rule upload_each_root [OF lineage_last])
  with w assms(1) show ?thesis by (simp add: backup_incremental_def)
qed

theorem backup_incremental_without_remote_ancestor_witness:
  "pm_zfs root_only_pm
     = [(''D@a'', ZFSSnapshot ''D@a'' None),
        (''D@b'', ZFSSnapshot ''D@b'' (Some (ZFSSnapshot ''D@a'' None)))]
   \<and> snapshot_to_backup root_only_pm None
       = Inr (ZFSSnapshot ''D@b'' (Some (ZFSSnapshot ''D@a'' None)))
   \<and> lineage (ZFSSnapshot ''D@b'' (Some (ZFSSnapshot ''D@a'' None)))
       = [ZFSSnapshot ''D@b'' (Some (ZFSSnapshot ''D@a'' None)), ZFSSnapshot ''D@a'' None]
   \<and> missing_remotely (pm_catalog root_only_pm) (ZFSSnapshot ''D@b'' (Some (ZFSSnapshot ''D@a'' None)))
   \<and> missing_remotely (pm_catalog root_only_pm) (ZFSSnapshot ''D@a'' None)
   \<and> backup_walk (pm_catalog root_only_pm) (ZFSSnapshot ''D@b'' (Some (ZFSSnapshot ''D@a'' None))) []
       = Inr [ZFSSnapshot ''D@b'' (Some (ZFSSnapshot ''D@a'' None)), ZFSSnapshot ''D@a'' None]
   \<and> backup_incremental root_only_pm None False = (Inl (AttributeError none_has_no_name), [])"
proof -
  let ?b = "ZFSSnapshot ''D@b'' (Some (ZFSSnapshot ''D@a'' None))"
  have h0: "pm_zfs root_only_pm = [(''D@a'', ZFSSnapshot ''D@a'' None), (''D@b'', ?b)]"
    by code_simp
  have h1: "snapshot_to_backup root_only_pm None = Inr ?b"
    by code_simp
  have h2: "\<forall>y \<in> set (lineage ?b). missing_remotely (pm_catalog root_only_pm) y"
    by (simp add: missing_remotely_def root_only_pm_def s3_get_def)
  have l: "lineage ?b = [?b, ZFSSnapshot ''D@a'' None]" by simp
  have m: "missing_remotely (pm_catalog root_only_pm) ?b"
    "missing_remotely (pm_catalog root_only_pm) (ZFSSnapshot ''D@a'' None)"
    by (simp_all add: missing_remotely_def root_only_pm_def s3_get_def)
  from backup_incremental_without_remote_ancestor [OF h1 h2, of False] h0 h1 l m
  show ?thesis by simp
qed

section \<open>Properties: the upload coordinator\<close>

lemma workers_run_keeps [simp]:
  "enqueued (workers_run t m ev spv) = enqueued spv"
  "multipart (workers_run t m ev spv) = multipart spv"
  "results (workers_run t m ev spv) = results spv"
  "pending_chunks (workers_run t m ev spv) = pending_chunks spv"
  "stream_handler (workers_run t m ev spv) = stream_handler spv"
  "stderr (workers_run t m ev spv) = stderr spv"
  "verbosity (workers_run t m ev spv) = verbosity spv"
  by (induction t m ev spv rule: workers_run.induct; simp add: Let_def split: option.splits)+


lemma handle_result_keeps:
  "handle_result spv = (r, spv') \<Longrightarrow>
     enqueued spv' = enqueued spv \<and> multipart spv' = multipart spv
     \<and> stream_handler spv' = stream_handler spv \<and> outbox spv' = outbox spv
     \<and> dead_workers spv' = dead_workers spv \<and> verbosity spv' = verbosity spv"
  by (auto simp: handle_result_def Let_def split: list.splits if_splits option.splits)

lemma handle_results_keeps:
  "handle_results spv = (r, spv') \<Longrightarrow>
     enqueued spv' = enqueued spv \<and> multipart spv' = multipart spv
     \<and> stream_handler spv' = stream_handler spv \<and> outbox spv' = outbox spv
     \<and> dead_workers spv' = dead_workers spv \<and> verbosity spv' = verbosity spv"
proof (induction spv rule: handle_results.induct)
  case (1 spv)
  show ?case
  proof (cases "inbox spv = []")
    case True
    with "1.prems" show ?thesis by (simp add: handle_results.simps)
  next
    case False
    obtain r1 s1 where h: "handle_result spv = (r1, s1)" by (cases "handle_result spv")
    show ?thesis
    proof (cases r1)
      case (Inl e)
      with "1.prems" False h have "spv' = s1" by (subst (asm) handle_results.simps) simp
      with handle_result_keeps [OF h] show ?thesis by simp
    next
      case (Inr u)
      with "1.prems" False h have "handle_results s1 = (r, spv')"
        by (subst (asm) handle_results.simps) simp
      from "1.IH" [OF False h [symmetric] Inr this] handle_result_keeps [OF h]
      show ?thesis by simp
    qed
  qed
qed


lemma unhex_hex: "n < 16 \<Longrightarrow> unhex_digit (hexdigits ! n) = Some n"
proof -
  assume "n < 16"
  then have "n \<in> {0, 1, 2, 3, 4, 5, 6, 7, 8, 9, 10, 11, 12, 13, 14, 15}" by simp arith
  then show ?thesis
    by (elim insertE emptyE) (simp_all add: unhex_digit_def hexdigits_def)
qed

lemma a2b_hex_hexlify: "a2b_hex (hexlify bs) = Inr bs"
proof (induction bs)
  case Nil
  then show ?case by (simp add: hexlify_def)
next
  case (Cons b bs)
  have h: "unat b div 16 < 16" using unsigned_less [of b, where 'a = nat] by (simp add: less_mult_imp_div_less)
  have l: "unat b mod 16 < 16" by simp
  have v: "(of_nat (16 * (unat b div 16) + unat b mod 16) :: byte) = b" by simp
  have "hexlify (b # bs) = hexdigits ! (unat b div 16) # hexdigits ! (unat b mod 16) # hexlify bs"
    by (simp add: hexlify_def)
  then show ?case using Cons unhex_hex [OF h] unhex_hex [OF l] v by simp
qed

lemma multipart_etag_loop_hex:
  "multipart_etag_loop (map (\<lambda>c. hexlify (md5 c)) cs) acc k
     = Inr (acc @ concat (map md5 cs), k + length cs)"
  by (induction cs arbitrary: acc k) (simp_all add: a2b_hex_hexlify)

lemma multipart_etag_hex:
  "multipart_etag md5 (map (\<lambda>c. hexlify (md5 c)) cs)
     = Inr ([apostrophe] @ hexlify (md5 (concat (map md5 cs))) @ ''-'' @ str_nat (length cs) @ [apostrophe])"
  by (simp add: multipart_etag_def multipart_etag_loop_hex)

lemma coordinator_invI:
  assumes "map fst (enqueued spv) = [1..<Suc ci]"
    and "map snd (enqueued spv) @ filter (\<lambda>c. c \<noteq> []) (fst (read_all (stream_handler spv))) = chunks"
    and "pending_chunks spv = int ci - int (length (results spv))"
    and "distinct (map fst (outbox spv) @ map r_index (inbox spv) @ map fst (results spv))"
    and "set (outbox spv) \<subseteq> set (enqueued spv)"
    and "\<And>r. r \<in> set (inbox spv) \<Longrightarrow> r_success r
            \<and> (\<exists>c. (r_index r, c) \<in> set (enqueued spv) \<and> r_md5 r = hexlify (md5 c))"
    and "\<And>r. r \<in> set (results spv) \<Longrightarrow>
            \<exists>c. (fst r, c) \<in> set (enqueued spv) \<and> fst (snd r) = hexlify (md5 c)"
    and "\<And>job. job \<in> set (enqueued spv) \<Longrightarrow> snd job \<noteq> []"
  shows "coordinator_inv md5 chunks spv ci"
  unfolding coordinator_inv_def using assms by blast

lemma coordinator_invD:
  assumes "coordinator_inv md5 chunks spv ci"
  shows "map fst (enqueued spv) = [1..<Suc ci]"
    and "map snd (enqueued spv) @ filter (\<lambda>c. c \<noteq> []) (fst (read_all (stream_handler spv))) = chunks"
    and "pending_chunks spv = int ci - int (length (results spv))"
    and "distinct (map fst (outbox spv) @ map r_index (inbox spv) @ map fst (results spv))"
    and "set (outbox spv) \<subseteq> set (enqueued spv)"
    and "\<And>r. r \<in> set (inbox spv) \<Longrightarrow> r_success r
            \<and> (\<exists>c. (r_index r, c) \<in> set (enqueued spv) \<and> r_md5 r = hexlify (md5 c))"
    and "\<And>r. r \<in> set (results spv) \<Longrightarrow>
            \<exists>c. (fst r, c) \<in> set (enqueued spv) \<and> fst (snd r) = hexlify (md5 c)"
    and "\<And>job. job \<in> set (enqueued spv) \<Longrightarrow> snd job \<noteq> []"
  using assms unfolding coordinator_inv_def by blast+

lemma retry_loop_Some: "retry_loop t k f = Inr (Some v) \<Longrightarrow> \<exists>a. f a = Inr v"
  by (induction k) (auto simp: Let_def split: sum.splits if_splits)

lemma worker_job_Some:
  assumes "worker_job t md5 responses job = Some r"
  shows "r_success r \<and> r_index r = fst job \<and> r_md5 r = hexlify (md5 (snd job))"
proof -
  from assms obtain m e where
    rt: "retry t (\<lambda>attempt. upload_part md5 (snd job) (responses attempt)) = Inr (Some (m, e))"
    and r: "r = \<lparr>r_success = True, r_traceback = None, r_index = fst job, r_md5 = m, r_etag = e\<rparr>"
    by (auto simp: worker_job_def split: sum.splits option.splits prod.splits)
  from rt obtain a where "upload_part md5 (snd job) (responses a) = Inr (m, e)"
    unfolding retry_def by (auto dest: retry_loop_Some)
  then have "m = hexlify (md5 (snd job))"
    by (auto simp: upload_part_def split: response.splits if_splits)
  with r show ?thesis by simp
qed

lemma remove1_fst_distinct:
  "distinct (map fst xs) \<Longrightarrow> job \<in> set xs \<Longrightarrow>
     distinct (map fst (remove1 job xs)) \<and> fst job \<notin> fst ` set (remove1 job xs)
     \<and> fst ` set (remove1 job xs) \<subseteq> fst ` set xs"
proof (induction xs)
  case Nil
  then show ?case by simp
next
  case (Cons x xs)
  show ?case
  proof (cases "job = x")
    case True
    with Cons.prems show ?thesis by auto
  next
    case False
    with Cons.prems have j: "job \<in> set xs" and d: "distinct (map fst xs)"
      and x: "fst x \<notin> fst ` set xs" by auto
    from Cons.IH [OF d j] have ih: "distinct (map fst (remove1 job xs))"
      "fst job \<notin> fst ` set (remove1 job xs)" "fst ` set (remove1 job xs) \<subseteq> fst ` set xs"
      by auto
    from j have "fst job \<in> fst ` set xs" by simp
    with x have "fst job \<noteq> fst x" by metis
    with False ih x show ?thesis by auto
  qed
qed

lemma inv_take_job:
  assumes inv: "coordinator_inv md5 cs spv ci" and job: "job \<in> set (outbox spv)"
  shows "coordinator_inv md5 cs (spv\<lparr>outbox := remove1 job (outbox spv)\<rparr>) ci"
    and "fst job \<notin> fst ` set (remove1 job (outbox spv))"
    and "fst job \<notin> r_index ` set (inbox spv)"
    and "fst job \<notin> fst ` set (results spv)"
    and "job \<in> set (enqueued spv)"
proof -
  from inv have d: "distinct (map fst (outbox spv) @ map r_index (inbox spv) @ map fst (results spv))"
    and sub: "set (outbox spv) \<subseteq> set (enqueued spv)"
    by (simp_all add: coordinator_inv_def)
  from d have d1: "distinct (map fst (outbox spv))" by simp
  note rm = remove1_fst_distinct [OF d1 job]
  from job have fj: "fst job \<in> fst ` set (outbox spv)" by simp
  show "fst job \<notin> fst ` set (remove1 job (outbox spv))" using rm by simp
  show "fst job \<notin> r_index ` set (inbox spv)" using d fj by auto
  show "fst job \<notin> fst ` set (results spv)" using d fj by auto
  show "job \<in> set (enqueued spv)" using sub job by auto
  from d have b: "distinct (map r_index (inbox spv) @ map fst (results spv))"
    and c: "fst ` set (outbox spv) \<inter> (r_index ` set (inbox spv) \<union> fst ` set (results spv)) = {}"
    by auto
  from rm c have c': "fst ` set (remove1 job (outbox spv))
      \<inter> (r_index ` set (inbox spv) \<union> fst ` set (results spv)) = {}" by blast
  have d': "distinct (map fst (remove1 job (outbox spv)) @ map r_index (inbox spv) @ map fst (results spv))"
    using rm b c' by simp
  have sub': "set (remove1 job (outbox spv)) \<subseteq> set (enqueued spv)"
    using sub set_remove1_subset [of job "outbox spv"] by blast
  from inv d' sub' show "coordinator_inv md5 cs (spv\<lparr>outbox := remove1 job (outbox spv)\<rparr>) ci"
    by (simp add: coordinator_inv_def)
qed

lemma inv_workers_run:
  "coordinator_inv md5 cs spv ci \<Longrightarrow> coordinator_inv md5 cs (workers_run t md5 ev spv) ci"
proof (induction t md5 ev spv rule: workers_run.induct)
  case (1 t md5 spv)
  then show ?case by simp
next
  case (2 t md5 idx responses rest spv)
  show ?case
  proof (cases "find (\<lambda>job. fst job = idx) (outbox spv)")
    case None
    with 2 show ?thesis by simp
  next
    case (Some job)
    then have job: "job \<in> set (outbox spv)" by (auto simp: find_Some_iff)
    show ?thesis
    proof (cases "workers spv \<le> dead_workers spv")
      case True
      with 2 Some show ?thesis by simp
    next
      case False
      let ?s = "spv\<lparr>outbox := remove1 job (outbox spv)\<rparr>"
      note tk = inv_take_job [OF "2.prems" job]
      show ?thesis
      proof (cases "worker_job t md5 responses job")
        case None
        have "coordinator_inv md5 cs (?s\<lparr>dead_workers := dead_workers ?s + 1\<rparr>) ci"
          using tk(1) by (simp add: coordinator_inv_def)
        from "2.IH"(3) [OF Some False refl None this] Some False None
        show ?thesis by (simp add: Let_def)
      next
        case (Some r)
        note w = worker_job_Some [OF Some]
        have e: "\<exists>c. (r_index r, c) \<in> set (enqueued spv) \<and> r_md5 r = hexlify (md5 c)"
          using tk(5) w by (intro exI [of _ "snd job"]) simp
        have "coordinator_inv md5 cs (?s\<lparr>inbox := inbox ?s @ [r]\<rparr>) ci"
          using tk(1-4) w e unfolding coordinator_inv_def by (auto simp: image_iff)
        from "2.IH"(4) [OF \<open>find (\<lambda>job. fst job = idx) (outbox spv) = Some job\<close> False refl Some this]
          \<open>find (\<lambda>job. fst job = idx) (outbox spv) = Some job\<close> False Some
        show ?thesis by (simp add: Let_def)
      qed
    qed
  qed
qed

lemma inv_index_bound:
  assumes "coordinator_inv md5 cs spv ci"
  shows "fst ` set (outbox spv) \<subseteq> {1..<Suc ci}"
    and "r_index ` set (inbox spv) \<subseteq> {1..<Suc ci}"
    and "fst ` set (results spv) \<subseteq> {1..<Suc ci}"
proof -
  note D = coordinator_invD [OF assms]
  have e: "set (map fst (enqueued spv)) = {1..<Suc ci}" unfolding D(1) by (rule set_upt)
  have sub: "set (outbox spv) \<subseteq> set (enqueued spv)" by (rule D(5))
  have ib: "\<forall>r \<in> set (inbox spv). \<exists>c. (r_index r, c) \<in> set (enqueued spv)"
    using D(6) by blast
  have rs: "\<forall>r \<in> set (results spv). \<exists>c. (fst r, c) \<in> set (enqueued spv)"
    using D(7) by blast
  have m: "\<And>i c. (i, c) \<in> set (enqueued spv) \<Longrightarrow> i \<in> {1..<Suc ci}"
  proof -
    fix i c assume "(i, c) \<in> set (enqueued spv)"
    then have "fst (i, c) \<in> set (map fst (enqueued spv))" by (simp only: set_map) (rule imageI)
    with e show "i \<in> {1..<Suc ci}" by simp
  qed
  show "fst ` set (outbox spv) \<subseteq> {1..<Suc ci}"
  proof
    fix i assume "i \<in> fst ` set (outbox spv)"
    then obtain c where "(i, c) \<in> set (outbox spv)" by auto
    with sub have "(i, c) \<in> set (enqueued spv)" by blast
    then show "i \<in> {1..<Suc ci}" by (rule m)
  qed
  show "r_index ` set (inbox spv) \<subseteq> {1..<Suc ci}"
  proof
    fix i assume "i \<in> r_index ` set (inbox spv)"
    then obtain r where "r \<in> set (inbox spv)" "i = r_index r" by auto
    with ib obtain c where "(i, c) \<in> set (enqueued spv)" by blast
    then show "i \<in> {1..<Suc ci}" by (rule m)
  qed
  show "fst ` set (results spv) \<subseteq> {1..<Suc ci}"
  proof
    fix i assume "i \<in> fst ` set (results spv)"
    then obtain r where "r \<in> set (results spv)" "i = fst r" by auto
    with rs obtain c where "(i, c) \<in> set (enqueued spv)" by blast
    then show "i \<in> {1..<Suc ci}" by (rule m)
  qed
qed

lemma inv_handle_result:
  assumes inv: "coordinator_inv md5 cs spv ci" and h: "handle_result spv = (r, spv')"
  shows "coordinator_inv md5 cs spv' ci \<and> r = Inr ()"
proof (cases "inbox spv")
  case Nil
  with h inv show ?thesis by (simp add: handle_result_def)
next
  case (Cons res rest)
  from inv Cons have ok: "r_success res"
    and c: "\<exists>c. (r_index res, c) \<in> set (enqueued spv) \<and> r_md5 res = hexlify (md5 c)"
    unfolding coordinator_inv_def by simp_all
  let ?s1 = "spv\<lparr>inbox := rest\<rparr>"
  let ?s2 = "if verbosity ?s1 \<ge> 2
             then ?s1\<lparr>stderr := stderr ?s1
                    @ [[newline] @ ''uploaded chunk '' @ str_nat (r_index res) @ '' '' @ [newline]]\<rparr>
             else ?s1"
  from h Cons ok have r: "r = Inr ()"
    and s: "spv' = ?s2\<lparr>results := results ?s1 @ [(r_index res, r_md5 res, r_etag res)],
                       pending_chunks := pending_chunks ?s1 - 1\<rparr>"
    by (simp_all add: handle_result_def Let_def)
  have f: "enqueued spv' = enqueued spv" "stream_handler spv' = stream_handler spv"
    "outbox spv' = outbox spv" "inbox spv' = rest"
    "results spv' = results spv @ [(r_index res, r_md5 res, r_etag res)]"
    "pending_chunks spv' = pending_chunks spv - 1"
    unfolding s by simp_all
  note D = coordinator_invD [OF inv]
  from D(4) Cons have d: "distinct (map fst (outbox spv) @ map r_index (res # rest) @ map fst (results spv))"
    by simp
  then have d': "distinct (map fst (outbox spv) @ map r_index rest
                   @ map fst (results spv @ [(r_index res, r_md5 res, r_etag res)]))"
    by auto
  have "coordinator_inv md5 cs spv' ci"
  proof (rule coordinator_invI)
    show "map fst (enqueued spv') = [1..<Suc ci]" using D(1) f by simp
    show "map snd (enqueued spv') @ filter (\<lambda>c. c \<noteq> []) (fst (read_all (stream_handler spv'))) = cs"
      using D(2) f by simp
    show "pending_chunks spv' = int ci - int (length (results spv'))" using D(3) f by simp
    show "distinct (map fst (outbox spv') @ map r_index (inbox spv') @ map fst (results spv'))"
      using d' f by simp
    show "set (outbox spv') \<subseteq> set (enqueued spv')" using D(5) f by simp
    show "r_success q \<and> (\<exists>c. (r_index q, c) \<in> set (enqueued spv') \<and> r_md5 q = hexlify (md5 c))"
      if "q \<in> set (inbox spv')" for q
      using that D(6) [of q] Cons f by simp
    show "\<exists>c. (fst q, c) \<in> set (enqueued spv') \<and> fst (snd q) = hexlify (md5 c)"
      if "q \<in> set (results spv')" for q
    proof (cases "q \<in> set (results spv)")
      case True
      with D(7) [of q] f show ?thesis by simp
    next
      case False
      with that f have "q = (r_index res, r_md5 res, r_etag res)" by simp
      with c f show ?thesis by simp
    qed
    show "snd job \<noteq> []" if "job \<in> set (enqueued spv')" for job
      using that D(8) [of job] f by simp
  qed
  with r show ?thesis by simp
qed

lemma inv_handle_results:
  "coordinator_inv md5 cs spv ci \<Longrightarrow> handle_results spv = (r, spv') \<Longrightarrow>
     coordinator_inv md5 cs spv' ci \<and> r = Inr ()"
proof (induction spv rule: handle_results.induct)
  case (1 spv)
  show ?case
  proof (cases "inbox spv = []")
    case True
    with "1.prems" show ?thesis by (simp add: handle_results.simps)
  next
    case False
    obtain r1 s1 where h: "handle_result spv = (r1, s1)" by (cases "handle_result spv")
    from inv_handle_result [OF "1.prems"(1) h] have i1: "coordinator_inv md5 cs s1 ci"
      and r1: "r1 = Inr ()" by simp_all
    from "1.prems"(2) False h r1 have "handle_results s1 = (r, spv')"
      by (subst (asm) handle_results.simps) simp
    from "1.IH" [OF False h [symmetric] r1 i1 this] show ?thesis .
  qed
qed

lemma read_all_step:
  "get_chunk sh = (chunk, sh') \<Longrightarrow>
     fst (read_all sh) = (case chunk of None \<Rightarrow> [] | Some c \<Rightarrow> c # fst (read_all sh'))"
  by (subst read_all.simps) (simp split: option.splits prod.splits)

lemma inv_next_chunk:
  assumes inv: "coordinator_inv md5 cs spv ci" and g: "get_chunk (stream_handler spv) = (chunk, sh')"
  shows "truthy chunk \<Longrightarrow>
           coordinator_inv md5 cs (send_chunk (ci + 1) (the chunk) (spv\<lparr>stream_handler := sh'\<rparr>)) (ci + 1)"
    and "\<not> truthy chunk \<Longrightarrow> coordinator_inv md5 cs (spv\<lparr>stream_handler := sh'\<rparr>) ci"
proof -
  note ra = read_all_step [OF g]
  note b = inv_index_bound [OF inv]
  {
    assume t: "truthy chunk"
    then obtain c where c: "chunk = Some c" "c \<noteq> []" by (auto simp: truthy_def split: option.splits)
    have fresh: "Suc ci \<notin> fst ` set (outbox spv)" "Suc ci \<notin> r_index ` set (inbox spv)"
      "Suc ci \<notin> fst ` set (results spv)"
      using b by auto
    note D = coordinator_invD [OF inv]
    from D(4) fresh have d': "distinct (map fst (outbox spv @ [(Suc ci, c)]) @ map r_index (inbox spv)
                           @ map fst (results spv))"
      by auto
    let ?n = "send_chunk (ci + 1) (the chunk) (spv\<lparr>stream_handler := sh'\<rparr>)"
    have f: "enqueued ?n = enqueued spv @ [(Suc ci, c)]" "stream_handler ?n = sh'"
      "outbox ?n = outbox spv @ [(Suc ci, c)]" "inbox ?n = inbox spv"
      "results ?n = results spv" "pending_chunks ?n = pending_chunks spv + 1"
      using c by (simp_all add: send_chunk_def)
    have rs: "fst (read_all (stream_handler spv)) = c # fst (read_all sh')" using ra c by simp
    show "coordinator_inv md5 cs ?n (ci + 1)"
    proof (rule coordinator_invI)
      show "map fst (enqueued ?n) = [1..<Suc (ci + 1)]" using D(1) unfolding f by simp
      show "map snd (enqueued ?n) @ filter (\<lambda>c. c \<noteq> []) (fst (read_all (stream_handler ?n))) = cs"
        using D(2) c unfolding f rs by simp
      show "pending_chunks ?n = int (ci + 1) - int (length (results ?n))"
        using D(3) unfolding f by simp
      show "distinct (map fst (outbox ?n) @ map r_index (inbox ?n) @ map fst (results ?n))"
        using d' unfolding f .
      show "set (outbox ?n) \<subseteq> set (enqueued ?n)" using D(5) unfolding f by auto
      show "r_success q \<and> (\<exists>c. (r_index q, c) \<in> set (enqueued ?n) \<and> r_md5 q = hexlify (md5 c))"
        if "q \<in> set (inbox ?n)" for q
        using that D(6) [of q] unfolding f by auto
      show "\<exists>c. (fst q, c) \<in> set (enqueued ?n) \<and> fst (snd q) = hexlify (md5 c)"
        if "q \<in> set (results ?n)" for q
        using that D(7) [of q] unfolding f by auto
      show "snd job \<noteq> []" if "job \<in> set (enqueued ?n)" for job
        using that D(8) [of job] c unfolding f by auto
    qed
  }
  {
    assume t: "\<not> truthy chunk"
    then have "chunk = None \<or> chunk = Some []" by (auto simp: truthy_def split: option.splits)
    then have "filter (\<lambda>c. c \<noteq> []) (fst (read_all (stream_handler spv)))
                 = filter (\<lambda>c. c \<noteq> []) (fst (read_all sh'))"
    proof
      assume n: "chunk = None"
      with g have "sh' = stream_handler spv" by (auto dest: get_chunk_None)
      then show ?thesis by simp
    next
      assume "chunk = Some []"
      with ra show ?thesis by simp
    qed
    with inv show "coordinator_inv md5 cs (spv\<lparr>stream_handler := sh'\<rparr>) ci"
      unfolding coordinator_inv_def by simp
  }
qed

lemma main_loop_while_inv:
  "coordinator_inv md5 cs spv ci \<Longrightarrow> main_loop_while t md5 evs spv ci = (out, spv') \<Longrightarrow>
     multipart spv' = multipart spv
     \<and> (\<exists>n. coordinator_inv md5 cs spv' n
            \<and> (out = None \<or> out = Some (Inl WorkerCrashed)
                 \<or> (out = Some (Inr n) \<and> pending_chunks spv' = 0 \<and> finished (stream_handler spv'))))"
proof (induction evs arbitrary: spv ci)
  case Nil
  show ?case
  proof (cases "pending_chunks spv \<noteq> 0 \<or> \<not> finished (stream_handler spv)")
    case True
    with Nil.prems have "out = None" "spv' = spv" by simp_all
    with Nil.prems(1) show ?thesis by blast
  next
    case False
    with Nil.prems have "out = Some (Inr ci)" "spv' = spv" by simp_all
    with Nil.prems(1) False show ?thesis by blast
  qed
next
  case (Cons ev evs)
  show ?case
  proof (cases "pending_chunks spv \<noteq> 0 \<or> \<not> finished (stream_handler spv)")
    case False
    with Cons.prems have "out = Some (Inr ci)" "spv' = spv" by simp_all
    with Cons.prems(1) False show ?thesis by blast
  next
    case True
    let ?s1 = "workers_run t md5 ev spv"
    have i1: "coordinator_inv md5 cs ?s1 ci" using Cons.prems(1) by (rule inv_workers_run)
    show ?thesis
    proof (cases "check_workers ?s1")
      case (Inl e)
      then have e: "e = WorkerCrashed" by (simp add: check_workers_def split: if_splits)
      from Cons.prems(2) True Inl have "out = Some (Inl e)" "spv' = ?s1" by (simp_all add: Let_def)
      with e i1 show ?thesis by auto
    next
      case (Inr u)
      obtain r s2 where h: "handle_results ?s1 = (r, s2)" by (cases "handle_results ?s1")
      from inv_handle_results [OF i1 h] have i2: "coordinator_inv md5 cs s2 ci" and r: "r = Inr ()"
        by simp_all
      from handle_results_keeps [OF h] have m2: "multipart s2 = multipart spv" by simp
      obtain chunk sh' where g: "get_chunk (stream_handler s2) = (chunk, sh')"
        by (cases "get_chunk (stream_handler s2)")
      let ?s3 = "s2\<lparr>stream_handler := sh'\<rparr>"
      show ?thesis
      proof (cases "truthy chunk")
        case t: True
        let ?s4 = "send_chunk (ci + 1) (the chunk) ?s3"
        from Cons.prems(2) True Inr h r g t
        have rec: "main_loop_while t md5 evs ?s4 (ci + 1) = (out, spv')" by (simp add: Let_def)
        have i4: "coordinator_inv md5 cs ?s4 (ci + 1)" using inv_next_chunk(1) [OF i2 g t] .
        have m4: "multipart ?s4 = multipart spv" using m2 by (simp add: send_chunk_def)
        from Cons.IH [OF i4 rec] m4 show ?thesis by simp
      next
        case f: False
        from Cons.prems(2) True Inr h r g f
        have rec: "main_loop_while t md5 evs ?s3 ci = (out, spv')" by (simp add: Let_def)
        have i3: "coordinator_inv md5 cs ?s3 ci" using inv_next_chunk(2) [OF i2 g f] .
        have m3: "multipart ?s3 = multipart spv" using m2 by simp
        from Cons.IH [OF i3 rec] m3 show ?thesis by simp
      qed
    qed
  qed
qed

lemma inv_initial:
  "coordinator_inv md5 (filter (\<lambda>c. c \<noteq> []) (emitted sh))
     (start_workers conc ((new_UploadSupervisor sh verb)\<lparr>multipart := Some []\<rparr>)) 0"
  by (rule coordinator_invI) (simp_all add: start_workers_def new_UploadSupervisor_def emitted_def)

lemma sorted_map_fst: "sorted (xs :: ('a::linorder \<times> 'b::linorder) list) \<Longrightarrow> sorted (map fst xs)"
proof (induction xs)
  case Nil
  then show ?case by simp
next
  case (Cons x xs)
  then have "\<forall>y \<in> set xs. x \<le> y" and "sorted xs" by simp_all
  then have "\<forall>y \<in> set xs. fst x \<le> fst y" by (auto simp: less_eq_prod_def)
  with Cons.IH \<open>sorted xs\<close> show ?case by simp
qed

lemma inv_final:
  assumes inv: "coordinator_inv md5 cs spv n" and p: "pending_chunks spv = 0"
    and fin: "finished (stream_handler spv)"
  shows "length (results spv) = n" and "length cs = n"
    and "map (\<lambda>r. fst (snd r)) (sort (results spv)) = map (\<lambda>c. hexlify (md5 c)) cs"
    and "map fst (sort_key fst (map (\<lambda>r. (fst r, snd (snd r))) (results spv))) = [1..<Suc n]"
proof -
  note D = coordinator_invD [OF inv]
  let ?rs = "results spv"
  show len: "length ?rs = n" using D(3) p by simp
  from fin have "eof_reached (stream_handler spv)" by (simp add: finished_def)
  then have "fst (read_all (stream_handler spv)) = []" by (simp add: read_all_eof)
  with D(2) have cs: "map snd (enqueued spv) = cs" by simp
  have le: "length (enqueued spv) = n"
    using arg_cong [OF D(1), of length] by (simp del: upt_Suc)
  with cs show "length cs = n" by auto
  have dist: "distinct (map fst ?rs)" using D(4) by simp
  have sub: "set (map fst ?rs) \<subseteq> {1..<Suc n}" using inv_index_bound(3) [OF inv] by simp
  have "card (set (map fst ?rs)) = length (map fst ?rs)" using dist by (rule distinct_card)
  then have "card (set (map fst ?rs)) = n" using len by simp
  then have seteq: "set (map fst ?rs) = {1..<Suc n}"
    using sub by (intro card_subset_eq) simp_all
  let ?ss = "sort ?rs"
  have "distinct ?rs" using dist by (rule distinct_map [THEN iffD1, THEN conjunct1])
  moreover have "inj_on fst (set ?rs)" using dist by (simp add: distinct_map)
  ultimately have d2: "distinct (map fst ?ss)" by (simp add: distinct_map)
  have s2: "sorted (map fst ?ss)" by (rule sorted_map_fst) simp
  have e2: "set (map fst ?ss) = set [1..<Suc n]" using seteq by (simp del: upt_Suc)
  have idx: "map fst ?ss = [1..<Suc n]"
    by (rule sorted_distinct_set_unique [OF s2 d2 _ _ e2]) (simp_all del: upt_Suc)
  have de: "distinct (map fst (enqueued spv))" unfolding D(1) by (rule distinct_upt)
  show "map (\<lambda>r. fst (snd r)) ?ss = map (\<lambda>c. hexlify (md5 c)) cs"
  proof (rule nth_equalityI)
    show "length (map (\<lambda>r. fst (snd r)) ?ss) = length (map (\<lambda>c. hexlify (md5 c)) cs)"
      using len \<open>length cs = n\<close> by simp
  next
    fix k assume "k < length (map (\<lambda>r. fst (snd r)) ?ss)"
    then have k: "k < n" using len by simp
    have "fst (?ss ! k) = map fst ?ss ! k" using k len by simp
    also have "\<dots> = Suc k" unfolding idx using k by (simp del: upt_Suc)
    finally have fk: "fst (?ss ! k) = Suc k" .
    have "?ss ! k \<in> set ?ss" using k len by (intro nth_mem) simp
    then have "?ss ! k \<in> set ?rs" by simp
    from D(7) [OF this] fk obtain c where c: "(Suc k, c) \<in> set (enqueued spv)"
      and m: "fst (snd (?ss ! k)) = hexlify (md5 c)" by auto
    have ek: "fst (enqueued spv ! k) = Suc k"
      using arg_cong [OF D(1), of "\<lambda>xs. xs ! k"] k le by (simp del: upt_Suc)
    from c obtain j where j: "j < length (enqueued spv)" "enqueued spv ! j = (Suc k, c)"
      by (auto simp: in_set_conv_nth)
    have eq: "map fst (enqueued spv) ! j = map fst (enqueued spv) ! k"
      using j ek k le by simp
    have "j < length (map fst (enqueued spv))" "k < length (map fst (enqueued spv))"
      using j(1) k le by simp_all
    with de eq have "j = k" by (simp only: nth_eq_iff_index_eq)
    with j have "c = snd (enqueued spv ! k)" by simp
    also have "\<dots> = map snd (enqueued spv) ! k" using k le by simp
    also have "\<dots> = cs ! k" using cs by simp
    finally have "c = cs ! k" .
    with m k \<open>length cs = n\<close> len
    show "map (\<lambda>r. fst (snd r)) ?ss ! k = map (\<lambda>c. hexlify (md5 c)) cs ! k" by simp
  qed
  let ?ps = "map (\<lambda>r. (fst r, snd (snd r))) ?rs"
  have mp: "map fst ?ps = map fst ?rs" by simp
  have "distinct (map fst ?ps)" using dist by (simp add: comp_def)
  then have "distinct ?ps \<and> inj_on fst (set ?ps)" by (simp only: distinct_map)
  then have d3: "distinct (map fst (sort_key fst ?ps))"
    by (simp only: distinct_map distinct_sort set_sort)
  have s3: "sorted (map fst (sort_key fst ?ps))" by (rule sorted_sort_key)
  have "set (map fst (sort_key fst ?ps)) = set (map fst ?ps)" by (simp only: set_map set_sort)
  also have "\<dots> = set (map fst ?rs)" by (simp add: comp_def)
  also have "\<dots> = set [1..<Suc n]" using seteq by (simp del: upt_Suc)
  finally have e3: "set (map fst (sort_key fst ?ps)) = set [1..<Suc n]" .
  show "map fst (sort_key fst ?ps) = [1..<Suc n]"
    by (rule sorted_distinct_set_unique [OF s3 d3 _ _ e3]) (simp_all del: upt_Suc)
qed

lemma main_loop_cases:
  assumes run: "main_loop t md5 sched conc (new_UploadSupervisor sh verb) = (out, spv')"
  shows "((out = None \<or> out = Some (Inl WorkerCrashed)) \<and> multipart spv' = Some []
          \<or> out = Some (Inl (UploadException zero_bytes_message)) \<and> multipart spv' = Some [Abort]
              \<and> chunk_sequence sh = []
          \<or> out = Some (Inr (composite_etag md5 (chunk_sequence sh))) \<and> chunk_sequence sh \<noteq> []
              \<and> (\<exists>parts. multipart spv' = Some [Complete parts]
                    \<and> map fst parts = [1..<Suc (length (chunk_sequence sh))]))
         \<and> (\<forall>job \<in> set (enqueued spv'). snd job \<noteq> [])"
proof -
  let ?cs = "chunk_sequence sh"
  let ?s0 = "start_workers conc ((new_UploadSupervisor sh verb)\<lparr>multipart := Some []\<rparr>)"
  have b: "begin_upload (new_UploadSupervisor sh verb)
             = Inr ((new_UploadSupervisor sh verb)\<lparr>multipart := Some []\<rparr>)"
    by (simp add: begin_upload_def new_UploadSupervisor_def)
  obtain o1 s1 where w: "main_loop_while t md5 sched ?s0 0 = (o1, s1)"
    by (cases "main_loop_while t md5 sched ?s0 0")
  have i0: "coordinator_inv md5 ?cs ?s0 0" unfolding chunk_sequence_def by (rule inv_initial)
  from main_loop_while_inv [OF i0 w] obtain n where m1: "multipart s1 = Some []"
    and i1: "coordinator_inv md5 ?cs s1 n"
    and c: "o1 = None \<or> o1 = Some (Inl WorkerCrashed)
            \<or> (o1 = Some (Inr n) \<and> pending_chunks s1 = 0 \<and> finished (stream_handler s1))"
    by (auto simp: start_workers_def)
  note D = coordinator_invD [OF i1]
  from c show ?thesis
  proof (elim disjE conjE)
    assume "o1 = None"
    with run b w have "out = None" "spv' = s1" by (simp_all add: main_loop_def)
    with m1 D(8) show ?thesis by blast
  next
    assume "o1 = Some (Inl WorkerCrashed)"
    with run b w have "out = Some (Inl WorkerCrashed)" "spv' = s1" by (simp_all add: main_loop_def)
    with m1 D(8) show ?thesis by blast
  next
    assume o1: "o1 = Some (Inr n)" and p: "pending_chunks s1 = 0"
      and fin: "finished (stream_handler s1)"
    note F = inv_final [OF i1 p fin]
    show ?thesis
    proof (cases "n = 0")
      case True
      with F have r0: "results s1 = []" and c0: "?cs = []" by simp_all
      then have f: "finish_upload s1 = (Inl (UploadException zero_bytes_message), multipart_call Abort s1)"
        by (simp add: finish_upload_def)
      from run b w o1 f have "out = Some (Inl (UploadException zero_bytes_message))"
        and "spv' = multipart_call Abort s1" by (simp_all add: main_loop_def)
      with m1 c0 D(8) show ?thesis by (simp add: multipart_call_def)
    next
      case False
      with F have rn: "length (results s1) \<noteq> 0" and cn: "?cs \<noteq> []" by auto
      let ?parts = "sort_key fst (map (\<lambda>r. (fst r, snd (snd r))) (results s1))"
      let ?s2 = "multipart_call (Complete ?parts) s1"
      let ?s3 = "?s2\<lparr>results := sort (results ?s2)\<rparr>"
      from rn have f: "finish_upload s1 = (Inr (), ?s2)"
        by (simp add: finish_upload_def Let_def)
      have r3: "map (\<lambda>r. fst (snd r)) (results ?s3) = map (\<lambda>c. hexlify (md5 c)) ?cs"
        using F(3) by (simp add: multipart_call_def)
      have e: "multipart_etag md5 (map (\<lambda>r. fst (snd r)) (results ?s3))
                 = Inr (composite_etag md5 ?cs)"
        unfolding r3 composite_etag_def by (rule multipart_etag_hex)
      from run b w o1 f e have out: "out = Some (Inr (composite_etag md5 ?cs))" and s: "spv' = ?s3"
        by (simp_all add: main_loop_def Let_def)
      have mp: "multipart spv' = Some [Complete ?parts]"
        unfolding s using m1 by (simp add: multipart_call_def)
      have en: "enqueued spv' = enqueued s1" unfolding s by (simp add: multipart_call_def)
      have ps: "map fst ?parts = [1..<Suc (length ?cs)]" using F(4) F(2) by simp
      from out cn mp ps en D(8) show ?thesis by auto
    qed
  qed
qed

lemma stream_read_nothing: "concat segs = [] \<Longrightarrow> stream_read n segs = ([], [])"
  by (induction n segs rule: stream_read.induct) auto

lemma get_chunk_empty_stream:
  assumes "concat input = []"
  shows "get_chunk (new_StreamHandler input csize)
           = (Some [], \<lparr>input_stream = [], chunk_size = csize, partial_chunk = [], eof_reached = True\<rparr>)"
  by (subst get_chunk.simps)
     (simp add: new_StreamHandler_def read_more_def stream_read_nothing [OF assms])



text \<open>
  C1 (as amended). Every run of the main loop on a fresh coordinator ends in
  one of three ways. Either it is still polling or \<open>WorkerCrashed\<close> is raised,
  and then neither complete nor abort has been called; or no part was produced,
  abort is the only call and \<open>UploadException\<close> is raised; or a tag is returned,
  complete is the only call, and its parts are numbered 1 to the number of
  chunks in ascending order. Complete and abort are never both called.
\<close>

theorem complete_or_abort:
  "\<exists>out spv'. main_loop t md5 schedule conc (new_UploadSupervisor sh verb) = (out, spv')
     \<and> ((out = None \<or> out = Some (Inl WorkerCrashed)) \<and> multipart spv' = Some []
        \<or> out = Some (Inl (UploadException zero_bytes_message)) \<and> multipart spv' = Some [Abort]
            \<and> chunk_sequence sh = []
        \<or> (\<exists>etag parts. out = Some (Inr etag) \<and> multipart spv' = Some [Complete parts]
              \<and> chunk_sequence sh \<noteq> []
              \<and> map fst parts = [1..<Suc (length (chunk_sequence sh))]))"
proof -
  obtain out spv' where r: "main_loop t md5 schedule conc (new_UploadSupervisor sh verb) = (out, spv')"
    by (cases "main_loop t md5 schedule conc (new_UploadSupervisor sh verb)")
  from main_loop_cases [OF r] r show ?thesis by blast
qed


text \<open>
  C10. On an input with no bytes the first \<open>get_chunk\<close> returns the empty byte
  string, not \<open>None\<close>, and the reader is finished only after it; and in every
  run of the coordinator every job put in the work queue carries a non-empty
  chunk.
\<close>

theorem empty_chunk_never_enqueued:
  "(concat input = [] \<longrightarrow>
      \<not> finished (new_StreamHandler input csize)
      \<and> fst (get_chunk (new_StreamHandler input csize)) = Some []
      \<and> finished (snd (get_chunk (new_StreamHandler input csize))))
   \<and> (\<forall>job \<in> set (enqueued (snd (main_loop t md5 schedule conc (new_UploadSupervisor sh verb)))).
         snd job \<noteq> [])"
proof -
  have a: "concat input = [] \<longrightarrow>
      \<not> finished (new_StreamHandler input csize)
      \<and> fst (get_chunk (new_StreamHandler input csize)) = Some []
      \<and> finished (snd (get_chunk (new_StreamHandler input csize)))"
  proof
    assume e: "concat input = []"
    have "\<not> finished (new_StreamHandler input csize)"
      by (simp add: finished_def new_StreamHandler_def)
    then show "\<not> finished (new_StreamHandler input csize)
      \<and> fst (get_chunk (new_StreamHandler input csize)) = Some []
      \<and> finished (snd (get_chunk (new_StreamHandler input csize)))"
      unfolding get_chunk_empty_stream [OF e] by (simp add: finished_def)
  qed
  obtain out spv' where r: "main_loop t md5 schedule conc (new_UploadSupervisor sh verb) = (out, spv')"
    by (cases "main_loop t md5 schedule conc (new_UploadSupervisor sh verb)")
  from main_loop_cases [OF r] have "\<forall>job \<in> set (enqueued spv'). snd job \<noteq> []" by blast
  with a r show ?thesis by simp
qed

text \<open>
  C1 as stated fails: when the worker of the first part dies, the
  next poll raises \<open>WorkerCrashed\<close> and the multipart upload, initiated, has
  seen neither complete nor abort.
\<close>

theorem complete_or_abort_counterexample:
  "fst (main_loop 1 toy_digest [[], [fails 1]] 2
          (new_UploadSupervisor (new_StreamHandler [[1, 2, 3]] 2) 0))
     = Some (Inl WorkerCrashed)
   \<and> multipart (snd (main_loop 1 toy_digest [[], [fails 1]] 2
          (new_UploadSupervisor (new_StreamHandler [[1, 2, 3]] 2) 0)))
     = Some []"
  by code_simp



theorem empty_chunk_never_enqueued_witness:
  "concat ([] :: bytes list) = []
   \<and> fst (get_chunk (new_StreamHandler [] 2)) = Some []
   \<and> emitted (new_StreamHandler [[1, 2]] 2) = [[1, 2], []]
   \<and> enqueued (snd (main_loop 3 toy_digest [[], [responds 1 ''e1''], []] 2
        (new_UploadSupervisor (new_StreamHandler [[1, 2]] 2) 0))) = [(1, [1, 2])]
   \<and> snd (1 :: nat, [1, 2 :: byte]) \<noteq> []"
proof -
  let ?run = "main_loop 3 toy_digest [[], [responds 1 ''e1''], []] 2
        (new_UploadSupervisor (new_StreamHandler [[1, 2]] 2) 0)"
  have h: "concat ([] :: bytes list) = []" by simp
  have e: "enqueued (snd ?run) = [(1, [1, 2])]" by code_simp
  have m: "emitted (new_StreamHandler [[1, 2]] 2) = [[1, 2], []]" by code_simp
  from empty_chunk_never_enqueued [of "[]" 2 3 toy_digest "[[], [responds 1 ''e1''], []]" 2
      "new_StreamHandler [[1, 2]] 2" 0]
  have g: "fst (get_chunk (new_StreamHandler [] 2)) = Some []"
    and n: "\<forall>job \<in> set (enqueued (snd ?run)). snd job \<noteq> []" by simp_all
  from n e have "snd (1 :: nat, [1, 2 :: byte]) \<noteq> []" by simp
  with h g m e show ?thesis by blast
qed

section \<open>Properties: the chunk size\<close>

lemma fl_nonneg:
  assumes "correctly_rounded fl" "0 \<le> x"
  shows "x * (1 - 1 / 2 ^ 53) \<le> fl x" and "fl x \<le> x * (1 + 1 / 2 ^ 53)"
proof -
  from assms(1) have "\<bar>fl x - x\<bar> \<le> \<bar>x\<bar> / 2 ^ 53"
    unfolding correctly_rounded_def by blast
  with assms(2) have b: "\<bar>fl x - x\<bar> \<le> x / 2 ^ 53" by (simp only: abs_of_nonneg)
  define d where "d = x / 2 ^ 53"
  from b have "fl x - x \<le> d" and "- (fl x - x) \<le> d"
    unfolding d_def abs_le_iff by blast+
  moreover have "x * (1 - 1 / 2 ^ 53) = x - d" and "x * (1 + 1 / 2 ^ 53) = x + d"
    unfolding d_def by (simp_all add: algebra_simps)
  ultimately show "x * (1 - 1 / 2 ^ 53) \<le> fl x" and "fl x \<le> x * (1 + 1 / 2 ^ 53)"
    by linarith+
qed

lemma fl_nonpos:
  assumes "correctly_rounded fl" "x \<le> 0"
  shows "fl x \<le> 0"
proof -
  from assms(1) have "\<bar>fl x - x\<bar> \<le> \<bar>x\<bar> / 2 ^ 53"
    unfolding correctly_rounded_def by blast
  with assms(2) have b: "\<bar>fl x - x\<bar> \<le> - x / 2 ^ 53" by (simp only: abs_of_nonpos)
  define d where "d = - x / 2 ^ 53"
  from b have "fl x - x \<le> d" unfolding d_def abs_le_iff by blast
  moreover have "d \<le> - x" unfolding d_def using assms(2) by (simp add: field_simps)
  ultimately show ?thesis by linarith
qed

lemma quotient_bounds:
  assumes fl: "correctly_rounded fl" and E: "0 \<le> E"
  shows "E * double_1_05 * (1 - 1 / 2 ^ 53) ^ 3 / 9999 \<le> fl (fl (fl E * double_1_05) / 9999)"
    and "fl (fl (fl E * double_1_05) / 9999) \<le> E * double_1_05 * (1 + 1 / 2 ^ 53) ^ 3 / 9999"
proof -
  let ?l = "1 - 1 / 2 ^ 53 :: real" and ?u = "1 + 1 / 2 ^ 53 :: real"
  have l: "0 \<le> ?l" and u: "0 \<le> ?u" by simp_all
  have c: "0 \<le> double_1_05" by (simp add: double_1_05_def)
  let ?a = "fl E"
  have a1: "E * ?l \<le> ?a" and a2: "?a \<le> E * ?u" using fl_nonneg [OF fl E] by simp_all
  have a0: "0 \<le> ?a" using a1 E l by (meson mult_nonneg_nonneg order_trans)
  let ?b = "fl (?a * double_1_05)"
  have ac: "0 \<le> ?a * double_1_05" using a0 c by simp
  have b1: "?a * double_1_05 * ?l \<le> ?b" and b2: "?b \<le> ?a * double_1_05 * ?u"
    using fl_nonneg [OF fl ac] by simp_all
  have b0: "0 \<le> ?b" using b1 ac l by (meson mult_nonneg_nonneg order_trans)
  let ?x = "fl (?b / 9999)"
  have bq: "0 \<le> ?b / 9999" using b0 by simp
  have x1: "?b / 9999 * ?l \<le> ?x" and x2: "?x \<le> ?b / 9999 * ?u"
    using fl_nonneg [OF fl bq] by simp_all
  have "E * double_1_05 * ?l ^ 3 / 9999 = (E * ?l) * double_1_05 * ?l / 9999 * ?l"
    by (simp add: power3_eq_cube)
  also have "\<dots> \<le> ?a * double_1_05 * ?l / 9999 * ?l"
    using a1 c l by (intro mult_right_mono divide_right_mono) simp_all
  also have "\<dots> \<le> ?b / 9999 * ?l"
    using b1 l by (intro mult_right_mono divide_right_mono) simp_all
  also have "\<dots> \<le> ?x" by (rule x1)
  finally show "E * double_1_05 * ?l ^ 3 / 9999 \<le> ?x" .
  have "?x \<le> ?b / 9999 * ?u" by (rule x2)
  also have "\<dots> \<le> ?a * double_1_05 * ?u / 9999 * ?u"
    using b2 u by (intro mult_right_mono divide_right_mono) simp_all
  also have "\<dots> \<le> (E * ?u) * double_1_05 * ?u / 9999 * ?u"
    using a2 c u by (intro mult_right_mono divide_right_mono) simp_all
  also have "\<dots> = E * double_1_05 * ?u ^ 3 / 9999" by (simp add: power3_eq_cube)
  finally show "?x \<le> E * double_1_05 * ?u ^ 3 / 9999" .
qed

lemma rounding_constants:
  "(105 / 100) * (1 - 1 / 10 ^ 15) \<le> double_1_05 * (1 - 1 / 2 ^ 53) ^ 3"
  "double_1_05 * (1 + 1 / 2 ^ 53) ^ 3 \<le> (105 / 100) * (1 + 1 / 10 ^ 15 :: real)"
  by (simp_all add: double_1_05_def power3_eq_cube)

lemma optimize_chunksize_floor:
  "optimize_chunksize fl E
     = \<lfloor>max (fl (fl (fl (of_int E) * double_1_05) / 9999)) 10485760\<rfloor>"
proof -
  have "\<not> max (fl (fl (fl (of_int E) * double_1_05) / 9999)) 10485760 < 0" by simp
  then show ?thesis by (simp add: optimize_chunksize_def py_int_def Let_def)
qed

lemma optimize_chunksize_nonpos:
  assumes fl: "correctly_rounded fl" and E: "E \<le> 0"
  shows "optimize_chunksize fl E = 10485760"
proof -
  have "fl (of_int E) \<le> 0" using E by (intro fl_nonpos [OF fl]) simp
  then have "fl (of_int E) * double_1_05 \<le> 0"
    by (simp add: double_1_05_def mult_le_0_iff)
  then have "fl (fl (of_int E) * double_1_05) \<le> 0" by (rule fl_nonpos [OF fl])
  then have "fl (fl (of_int E) * double_1_05) / 9999 \<le> 0" by simp
  then have "fl (fl (fl (of_int E) * double_1_05) / 9999) \<le> 0" by (rule fl_nonpos [OF fl])
  then have "max (fl (fl (fl (of_int E) * double_1_05) / 9999)) 10485760 = 10485760" by simp
  then show ?thesis unfolding optimize_chunksize_floor by simp
qed

lemma optimize_chunksize_near:
  assumes fl: "correctly_rounded fl" and E: "0 \<le> E"
  shows "max (105 / 100 * real_of_int E / 9999) 10485760 * (1 - 1 / 10 ^ 15) - 1
           < real_of_int (optimize_chunksize fl E)"
    and "real_of_int (optimize_chunksize fl E)
           \<le> max (105 / 100 * real_of_int E / 9999) 10485760 * (1 + 1 / 10 ^ 15)"
proof -
  let ?E = "real_of_int E"
  let ?x = "fl (fl (fl ?E * double_1_05) / 9999)"
  let ?m = "max ?x 10485760"
  let ?M = "max (105 / 100 * ?E / 9999) 10485760"
  have E': "0 \<le> ?E" using E by simp
  note q = quotient_bounds [OF fl E']
  have "105 / 100 * ?E / 9999 * (1 - 1 / 10 ^ 15) = ?E * ((105 / 100) * (1 - 1 / 10 ^ 15)) / 9999"
    by simp
  also have "\<dots> \<le> ?E * (double_1_05 * (1 - 1 / 2 ^ 53) ^ 3) / 9999"
    using E' rounding_constants(1) by (intro divide_right_mono mult_left_mono) simp_all
  also have "\<dots> \<le> ?x" using q(1) by (simp add: mult.assoc)
  finally have lo: "105 / 100 * ?E / 9999 * (1 - 1 / 10 ^ 15) \<le> ?x" .
  have "?x \<le> ?E * (double_1_05 * (1 + 1 / 2 ^ 53) ^ 3) / 9999" using q(2) by (simp add: mult.assoc)
  also have "\<dots> \<le> ?E * ((105 / 100) * (1 + 1 / 10 ^ 15)) / 9999"
    using E' rounding_constants(2) by (intro divide_right_mono mult_left_mono) simp_all
  also have "\<dots> = 105 / 100 * ?E / 9999 * (1 + 1 / 10 ^ 15)" by simp
  finally have hi: "?x \<le> 105 / 100 * ?E / 9999 * (1 + 1 / 10 ^ 15)" .
  have mlo: "?M * (1 - 1 / 10 ^ 15) \<le> ?m"
  proof (cases "105 / 100 * ?E / 9999 \<le> 10485760")
    case True
    then have "?M = 10485760" by simp
    then show ?thesis by simp
  next
    case False
    then have "?M = 105 / 100 * ?E / 9999" by simp
    with lo show ?thesis by simp
  qed
  have mhi: "?m \<le> ?M * (1 + 1 / 10 ^ 15)"
  proof (cases "105 / 100 * ?E / 9999 \<le> 10485760")
    case True
    then have M: "?M = 10485760" by simp
    have "?x \<le> 10485760 * (1 + 1 / 10 ^ 15)"
      using hi True by (meson mult_right_mono order_trans zero_le_one add_nonneg_nonneg
          zero_le_divide_1_iff zero_le_numeral zero_le_power)
    then show ?thesis unfolding M by simp
  next
    case False
    then have M: "?M = 105 / 100 * ?E / 9999" by simp
    have "(10485760 :: real) \<le> 105 / 100 * ?E / 9999 * (1 + 1 / 10 ^ 15)"
      using False by (simp add: algebra_simps)
    with hi show ?thesis unfolding M by simp
  qed
  have f: "real_of_int (optimize_chunksize fl E) = real_of_int \<lfloor>?m\<rfloor>"
    by (simp add: optimize_chunksize_floor)
  have "?m - 1 < real_of_int \<lfloor>?m\<rfloor>" by linarith
  with mlo f show "?M * (1 - 1 / 10 ^ 15) - 1 < real_of_int (optimize_chunksize fl E)" by linarith
  have "real_of_int \<lfloor>?m\<rfloor> \<le> ?m" by linarith
  with mhi f show "real_of_int (optimize_chunksize fl E) \<le> ?M * (1 + 1 / 10 ^ 15)" by linarith
qed

text \<open>
  C7 (as amended). With correctly rounded operations, for every estimated size
  \<open>E\<close> the chunk size is at least 10 MiB and 9999 chunks hold at least \<open>E\<close> bytes;
  it is exactly 10 MiB for \<open>E \<le> 0\<close>; and for \<open>E \<ge> 0\<close> it is the truncation of
  \<open>max (1.05 E / 9999) (10 MiB)\<close> up to a relative rounding error of \<open>10^-15\<close>:
  more than that maximum less one, and at most that maximum.
\<close>

theorem optimize_chunksize_bounds:
  assumes "correctly_rounded fl"
  shows "10485760 \<le> optimize_chunksize fl E
     \<and> E \<le> optimize_chunksize fl E * 9999
     \<and> (E \<le> 0 \<longrightarrow> optimize_chunksize fl E = 10485760)
     \<and> (0 \<le> E \<longrightarrow>
          max (105 / 100 * real_of_int E / 9999) 10485760 * (1 - 1 / 10 ^ 15) - 1
            < real_of_int (optimize_chunksize fl E)
          \<and> real_of_int (optimize_chunksize fl E)
            \<le> max (105 / 100 * real_of_int E / 9999) 10485760 * (1 + 1 / 10 ^ 15))"
proof -
  let ?c = "optimize_chunksize fl E"
  let ?E = "real_of_int E"
  let ?M = "max (105 / 100 * ?E / 9999) 10485760"
  have a: "10485760 \<le> ?c"
  proof -
    have "(10485760 :: real) \<le> max (fl (fl (fl (of_int E) * double_1_05) / 9999)) 10485760"
      by simp
    then have "\<lfloor>10485760 :: real\<rfloor> \<le> \<lfloor>max (fl (fl (fl (of_int E) * double_1_05) / 9999)) 10485760\<rfloor>"
      by (rule floor_mono)
    then show ?thesis unfolding optimize_chunksize_floor by simp
  qed
  have c: "E \<le> 0 \<longrightarrow> ?c = 10485760"
    using optimize_chunksize_nonpos [OF assms] by blast
  have d: "0 \<le> E \<longrightarrow> ?M * (1 - 1 / 10 ^ 15) - 1 < real_of_int ?c
          \<and> real_of_int ?c \<le> ?M * (1 + 1 / 10 ^ 15)"
    using optimize_chunksize_near [OF assms] by blast
  have b: "E \<le> ?c * 9999"
  proof (cases "0 \<le> E")
    case False
    with a show ?thesis by linarith
  next
    case True
    with d have lo: "?M * (1 - 1 / 10 ^ 15) - 1 < real_of_int ?c" by blast
    have "?E / 9999 \<le> ?M * (1 - 1 / 10 ^ 15) - 1"
    proof (cases "105 / 100 * ?E / 9999 \<le> 10485760")
      case le: True
      then have M: "?M = 10485760" by simp
      from le have "?E / 9999 \<le> 10485760 * (100 / 105)" by (simp add: field_simps)
      also have "\<dots> \<le> 10485760 * (1 - 1 / 10 ^ 15) - 1" by simp
      finally show ?thesis unfolding M .
    next
      case gt: False
      then have M: "?M = 105 / 100 * ?E / 9999" by simp
      from gt have big: "10485760 * 9999 * (100 / 105) < ?E" by (simp add: field_simps)
      have "?M * (1 - 1 / 10 ^ 15) - 1 - ?E / 9999
              = ?E * ((105 / 100 * (1 - 1 / 10 ^ 15) - 1) / 9999) - 1"
        unfolding M by (simp add: field_simps)
      also have "\<dots> \<ge> 0"
      proof -
        have k: "(0 :: real) < (105 / 100 * (1 - 1 / 10 ^ 15) - 1) / 9999" by simp
        have "1 \<le> 10485760 * 9999 * (100 / 105) * ((105 / 100 * (1 - 1 / 10 ^ 15) - 1) / 9999 :: real)"
          by simp
        also have "\<dots> \<le> ?E * ((105 / 100 * (1 - 1 / 10 ^ 15) - 1) / 9999)"
          using big k by (intro mult_right_mono) simp_all
        finally show ?thesis by simp
      qed
      finally show ?thesis by simp
    qed
    with lo have "?E / 9999 < real_of_int ?c" by linarith
    then have "?E < real_of_int ?c * 9999" by (simp add: field_simps)
    then have "?E < real_of_int (?c * 9999)" by simp
    then have "E < ?c * 9999" by (simp only: of_int_less_iff)
    then show ?thesis by simp
  qed
  from a b c d show ?thesis by blast
qed

text \<open>
  For \<open>E = 10^11\<close> every correct rounding gives the chunk size 10501050, and
  \<open>10501050 * 9999 = 104999998950\<close> is below \<open>1.05 E = 105000000000\<close>: truncation
  rounds down, so the bound \<open>chunk * 9999 \<ge> 1.05 E\<close> of C7 as stated fails.
\<close>

lemma optimize_chunksize_100GB:
  assumes "correctly_rounded fl"
  shows "optimize_chunksize fl 100000000000 = 10501050"
proof -
  let ?c = "optimize_chunksize fl 100000000000"
  from optimize_chunksize_near [OF assms, of 100000000000]
  have lo: "max (105 / 100 * 100000000000 / 9999) 10485760 * (1 - 1 / 10 ^ 15) - 1 < real_of_int ?c"
    and hi: "real_of_int ?c \<le> max (105 / 100 * 100000000000 / 9999) 10485760 * (1 + 1 / 10 ^ 15)"
    by simp_all
  have m: "max (105 / 100 * 100000000000 / 9999) 10485760 = (105000000000 / 9999 :: real)"
    by simp
  have "(10501049 :: real) < 105000000000 / 9999 * (1 - 1 / 10 ^ 15) - 1" by simp
  with lo have "10501049 < real_of_int ?c" unfolding m by linarith
  then have l: "10501049 < ?c" by linarith
  have "105000000000 / 9999 * (1 + 1 / 10 ^ 15) < (10501051 :: real)" by simp
  with hi have "real_of_int ?c < 10501051" unfolding m by linarith
  then have "?c < 10501051" by linarith
  with l show ?thesis by linarith
qed

theorem optimize_chunksize_bounds_witness:
  "correctly_rounded (\<lambda>x. x)
   \<and> optimize_chunksize (\<lambda>x. x) 100000000000 = 10501050
   \<and> (10485760 :: int) \<le> 10501050
   \<and> (100000000000 :: int) \<le> 10501050 * 9999"
proof -
  have r: "correctly_rounded (\<lambda>x. x)" by (simp add: correctly_rounded_def)
  have v: "optimize_chunksize (\<lambda>x. x) 100000000000 = 10501050"
    using r by (rule optimize_chunksize_100GB)
  from optimize_chunksize_bounds [OF r, of 100000000000] r v show ?thesis by simp
qed

theorem optimize_chunksize_counterexample:
  "optimize_chunksize (\<lambda>x. x) 100000000000 = 10501050
   \<and> \<not> (105 / 100 * real_of_int 100000000000
          \<le> real_of_int (optimize_chunksize (\<lambda>x. x) 100000000000) * 9999)"
proof -
  have r: "correctly_rounded (\<lambda>x. x)" by (simp add: correctly_rounded_def)
  have v: "optimize_chunksize (\<lambda>x. x) 100000000000 = 10501050"
    using r by (rule optimize_chunksize_100GB)
  show ?thesis unfolding v by simp
qed

end
